theory Spec2Isabelle
  imports Main "HOL-Library.Word"
begin

section \<open>The event dispatcher of twitch/dispatcher.go\<close>

text \<open>
  The dispatcher keeps, for every event key, a Go slice of listeners, hands out listener
  ids from a counter, and serialises (possibly nested) triggers through a queue guarded by
  a boolean. Listener callbacks are arbitrary Go code that may call back into the
  dispatcher, and \<^verbatim>\<open>Remove\<close> shrinks a slice in its backing array while
  \<^verbatim>\<open>runListeners\<close> may be ranging over it. The model therefore has three layers:
  \<^item> the structs of the source as records;
  \<^item> an explicit store for the memory the code shares: the backing arrays of the
    listener slices and the \<^verbatim>\<open>*Listener\<close> cells returned to callers;
  \<^item> callbacks as programs over the dispatcher's public operations, run by an
    interpreter with fuel (a listener may trigger events for ever).
\<close>

subsection \<open>Structs\<close>

text \<open>
  \<^verbatim>\<open>Channel\<close> is declared elsewhere in the package; the dispatcher only reads its
  \<^verbatim>\<open>Name\<close>. A \<^verbatim>\<open>*Channel\<close> that may be nil is a \<open>Channel option\<close>.
\<close>

datatype Channel = Channel (Name: string)

text \<open>
  \<^verbatim>\<open>type Listener struct { dispatcher *dispatcher; callback listenerFunc; event string; id int }\<close>.
  One dispatcher instance is modelled, so the back-reference \<open>dispatcher\<close> is a flag:
  \<open>True\<close> for a pointer to that dispatcher, \<open>False\<close> for nil. The callback is an opaque
  value (\<^verbatim>\<open>interface{}\<close>, nil is \<open>None\<close>). Go's \<^verbatim>\<open>int\<close> is a machine integer, 64
  bits wide on the 64-bit targets: \<^verbatim>\<open>+\<close> wraps around, \<^verbatim>\<open>==\<close> compares the bits, and
  \<open>sint\<close> reads the value (two's complement). The field \<open>id\<close> is written \<open>id'\<close> (\<open>id\<close> is
  HOL's identity function).
\<close>

type_synonym go_int = "64 word"

record 'cb Listener =
  dispatcher :: bool
  callback :: "'cb option"
  event :: string
  id' :: go_int

text \<open>\<^verbatim>\<open>func (l *Listener) Equals(m *Listener) bool { return l.id == m.id }\<close>\<close>

definition Equals :: "'cb Listener \<Rightarrow> 'cb Listener \<Rightarrow> bool" where
  "Equals l m = (id' l = id' m)"

subsection \<open>Callers and callbacks\<close>

text \<open>
  Code outside the dispatcher (the bot core, a plugin, a listener callback, a
  \<^verbatim>\<open>walker\<close>) is a program: a tree of calls of the dispatcher's operations, each
  followed by a continuation that receives the call's result. \<open>Get\<close> and \<open>Put\<close> read and
  write the state \<open>'w\<close> of everything that is not the dispatcher (closure variables, plugin
  state), so a callback may behave differently each time it runs. \<open>Panic\<close> is a Go panic,
  \<open>Recover\<close> runs a program under a deferred \<^verbatim>\<open>recover()\<close> and tells the continuation
  whether it panicked, \<open>CopyListener\<close> copies a \<^verbatim>\<open>Listener\<close> value into a new cell
  (\<^verbatim>\<open>c := *l\<close>). A \<^verbatim>\<open>walker func(interface{})\<close> maps the stored callback to the
  program that the call \<^verbatim>\<open>visitor(listener.callback)\<close> runs.
\<close>

datatype ('cb, 'w) prog =
    Return
  | Panic
  | Get "'w \<Rightarrow> ('cb, 'w) prog"
  | Put 'w "('cb, 'w) prog"
  | CallTriggerEvent string "Channel option" "'cb option \<Rightarrow> ('cb, 'w) prog" "('cb, 'w) prog"
  | CallAddListener string "Channel option" "'cb option" "nat \<Rightarrow> ('cb, 'w) prog"
  | CallRemove nat "('cb, 'w) prog"
  | CallEquals nat nat "bool \<Rightarrow> ('cb, 'w) prog"
  | CopyListener nat "nat \<Rightarrow> ('cb, 'w) prog"
  | Recover "('cb, 'w) prog" "bool \<Rightarrow> ('cb, 'w) prog"

type_synonym ('cb, 'w) walker = "'cb option \<Rightarrow> ('cb, 'w) prog"

text \<open>\<^verbatim>\<open>type triggerQueueItem struct { event string; channel *Channel; visitor walker }\<close>\<close>

record ('cb, 'w) triggerQueueItem =
  event :: string
  channel :: "Channel option"
  visitor :: "('cb, 'w) walker"

subsection \<open>The store\<close>

text \<open>
  A value of type \<^verbatim>\<open>[]Listener\<close> is a slice header: a pointer to a backing array and
  a length. Every listener slice of the dispatcher starts at index 0 of its array
  (\<^verbatim>\<open>make\<close>, \<^verbatim>\<open>append\<close> and \<^verbatim>\<open>list[:pos]\<close> keep the start), so the capacity
  is the length of the array and is not stored again.
\<close>

record slice =
  ptr :: nat
  len :: nat

text \<open>
  What an execution did, in order:
  \<^item> \<open>Raised\<close>: \<^verbatim>\<open>TriggerEvent\<close> appended a request to the queue;
  \<^item> \<open>Locked\<close>: a call of \<^verbatim>\<open>TriggerEvent\<close> found the lock free, set it and entered its
    drain loop;
  \<^item> \<open>Popped\<close>: the drain loop took the first request off the queue;
  \<^item> \<open>Visited\<close>: the loop of \<^verbatim>\<open>runListeners\<close>, called for this event key, called
    \<^verbatim>\<open>visitor(listener.callback)\<close> for this listener;
  \<^item> \<open>Unlocked\<close>: the drain loop ended and the call released the lock;
  \<^item> \<open>Unwound\<close>: a panic left the drain loop of a call (which does not release the lock);
  \<^item> \<open>Issued\<close>: a caller received a listener with this id from \<^verbatim>\<open>AddListener\<close>;
  \<^item> \<open>Removed\<close>: a caller called \<^verbatim>\<open>Remove\<close> on this listener cell.

  The record is a history variable: no operation reads it.
\<close>

datatype ('cb, 'w) observation =
    Raised "('cb, 'w) triggerQueueItem"
  | Locked
  | Popped "('cb, 'w) triggerQueueItem"
  | Visited string "'cb Listener"
  | Unlocked
  | Unwound
  | Issued go_int
  | Removed nat

text \<open>
  \<^verbatim>\<open>type dispatcher struct { listeners listenerMap; listenerID int; lock bool; triggerQueue []triggerQueueItem }\<close>.
  The queue is a list: the loop copies \<^verbatim>\<open>triggerQueue[0]\<close> out before it re-slices, and
  nothing else holds the queue's array.
\<close>

record ('cb, 'w) dispatcher =
  listeners :: "string \<rightharpoonup> slice"
  listenerID :: go_int
  lock :: bool
  triggerQueue :: "('cb, 'w) triggerQueueItem list"

text \<open>
  The state of the program: the dispatcher, the backing arrays (\<open>arrays\<close>, allocated
  below \<open>next_array\<close>), the \<^verbatim>\<open>Listener\<close> cells that \<^verbatim>\<open>*Listener\<close> handles point to
  (\<open>cells\<close>, below \<open>next_cell\<close>), the capacity the runtime asks for when \<^verbatim>\<open>append\<close>
  has to grow an array of a given capacity (\<open>growslice\<close>, a parameter: the Go runtime is
  not part of the repository), the callers' own state (\<open>world\<close>), and two history
  variables: \<open>history\<close>, and \<open>frames\<close>, the number of calls of \<^verbatim>\<open>TriggerEvent\<close> that
  are inside their drain loop.
\<close>

record ('cb, 'w) state = "('cb, 'w) dispatcher" +
  arrays :: "nat \<Rightarrow> 'cb Listener list"
  next_array :: nat
  cells :: "nat \<Rightarrow> 'cb Listener"
  next_cell :: nat
  growslice :: "nat \<Rightarrow> nat"
  world :: 'w
  history :: "('cb, 'w) observation list"
  frames :: nat

datatype runtime_error = slice_bounds_out_of_range

datatype ('cb, 'w) outcome =
    Normal "('cb, 'w) state"
  | Panicked "('cb, 'w) state"

definition state_of :: "('cb, 'w) outcome \<Rightarrow> ('cb, 'w) state" where
  "state_of r = (case r of Normal s \<Rightarrow> s | Panicked s \<Rightarrow> s)"

subsection \<open>Go's slice operations\<close>

text \<open>The zero value of \<^verbatim>\<open>Listener\<close>, which fills the spare capacity of a new array.\<close>

definition zero_Listener :: "'cb Listener" where
  "zero_Listener = \<lparr>dispatcher = False, callback = None, Listener.event = [], id' = 0\<rparr>"

text \<open>The elements of a slice: the first \<open>len\<close> cells of its array.\<close>

definition elems :: "slice \<Rightarrow> ('cb, 'w) state \<Rightarrow> 'cb Listener list" where
  "elems l s = take (len l) (arrays s (ptr l))"

text \<open>\<^verbatim>\<open>make([]Listener, 0)\<close>: an empty slice of capacity 0.\<close>

definition make_slice :: "('cb, 'w) state \<Rightarrow> slice \<times> ('cb, 'w) state" where
  "make_slice s =
     (\<lparr>ptr = next_array s, len = 0\<rparr>,
      s\<lparr>arrays := (arrays s)(next_array s := []), next_array := Suc (next_array s)\<rparr>)"

text \<open>
  \<^verbatim>\<open>list[:hi]\<close> panics unless \<open>hi\<close> is at most the capacity; \<^verbatim>\<open>list[lo:]\<close> panics
  unless \<open>lo\<close> is at most the length. The second is only used as the source of an
  \<^verbatim>\<open>append\<close>, so it is modelled by the elements it denotes.
\<close>

definition slice_upto :: "slice \<Rightarrow> nat \<Rightarrow> ('cb, 'w) state \<Rightarrow> runtime_error + slice" where
  "slice_upto l hi s =
     (if hi \<le> length (arrays s (ptr l)) then Inr (l\<lparr>len := hi\<rparr>)
      else Inl slice_bounds_out_of_range)"

definition slice_from ::
  "slice \<Rightarrow> nat \<Rightarrow> ('cb, 'w) state \<Rightarrow> runtime_error + 'cb Listener list" where
  "slice_from l lo s =
     (if lo \<le> len l then Inr (drop lo (elems l s)) else Inl slice_bounds_out_of_range)"

text \<open>
  \<^verbatim>\<open>append(l, xs...)\<close>: when the result fits the capacity the elements are written into
  the array of \<open>l\<close>, in place, directly after its first \<open>len l\<close> cells, and every other
  slice on that array sees them; otherwise a new array is allocated (of the capacity the
  runtime chooses, at least the length needed), the old elements are copied and the old
  array is left as it is.
\<close>

definition append_slice ::
  "slice \<Rightarrow> 'cb Listener list \<Rightarrow> ('cb, 'w) state \<Rightarrow> slice \<times> ('cb, 'w) state" where
  "append_slice l xs s =
     (let a = arrays s (ptr l); n = len l + length xs in
      if n \<le> length a
      then (l\<lparr>len := n\<rparr>,
            s\<lparr>arrays := (arrays s)(ptr l := take (len l) a @ xs @ drop n a)\<rparr>)
      else (\<lparr>ptr = next_array s, len = n\<rparr>,
            s\<lparr>arrays := (arrays s)(next_array s :=
                   take (len l) a @ xs @
                   replicate (max n (growslice s (length a)) - n) zero_Listener),
              next_array := Suc (next_array s)\<rparr>))"

text \<open>\<^verbatim>\<open>&listener\<close>: the value moves to a new cell, and the address is returned.\<close>

definition new_cell :: "'cb Listener \<Rightarrow> ('cb, 'w) state \<Rightarrow> nat \<times> ('cb, 'w) state" where
  "new_cell x s =
     (next_cell s, s\<lparr>cells := (cells s)(next_cell s := x), next_cell := Suc (next_cell s)\<rparr>)"

text \<open>
  The search loop of \<^verbatim>\<open>Remove\<close>: the first index whose element satisfies \<open>P\<close>
  (\<open>None\<close> for \<^verbatim>\<open>pos == -1\<close>).
\<close>

fun position :: "('a \<Rightarrow> bool) \<Rightarrow> 'a list \<Rightarrow> nat option" where
  "position P [] = None"
| "position P (x # xs) =
     (if P x then Some 0 else map_option Suc (position P xs))"

subsection \<open>The operations\<close>

text \<open>
  \<^verbatim>\<open>fullEventName := event; if c != nil { fullEventName = fullEventName + "#" + c.Name }\<close>
\<close>

definition fullEventName :: "string \<Rightarrow> Channel option \<Rightarrow> string" where
  "fullEventName ev c = (case c of None \<Rightarrow> ev | Some ch \<Rightarrow> ev @ ''#'' @ Name ch)"

text \<open>
  \<^verbatim>\<open>NewDispatcher\<close>, in an empty store; \<open>g\<close> is the runtime's growth policy and \<open>w0\<close>
  the initial state of the callers.
\<close>

definition NewDispatcher :: "(nat \<Rightarrow> nat) \<Rightarrow> 'w \<Rightarrow> ('cb, 'w) state" where
  "NewDispatcher g w0 =
     \<lparr>listeners = Map.empty, listenerID = 0, lock = False, triggerQueue = [],
      arrays = (\<lambda>_. []), next_array = 0, cells = (\<lambda>_. zero_Listener), next_cell = 0,
      growslice = g, world = w0, history = [], frames = 0\<rparr>"

text \<open>
  The last three statements of \<^verbatim>\<open>AddListener\<close>:
  \<^verbatim>\<open>d.listeners[fullEventName] = append(list, listener); d.listenerID = d.listenerID + 1; return &listener\<close>
\<close>

definition register ::
  "string \<Rightarrow> slice \<Rightarrow> 'cb Listener \<Rightarrow> ('cb, 'w) state \<Rightarrow> nat \<times> ('cb, 'w) state" where
  "register key list listener s =
     (let (list', s1) = append_slice list [listener] s in
      new_cell listener
        (s1\<lparr>listeners := (listeners s1)(key \<mapsto> list'), listenerID := listenerID s1 + 1\<rparr>))"

text \<open>
  \<^verbatim>\<open>AddListener\<close>. The loop over the existing list returns the address of a copy of the
  first element that \<^verbatim>\<open>Equals\<close> the new listener (\<^verbatim>\<open>return &i\<close>).
\<close>

definition AddListener ::
  "string \<Rightarrow> Channel option \<Rightarrow> 'cb option \<Rightarrow> ('cb, 'w) state \<Rightarrow> nat \<times> ('cb, 'w) state" where
  "AddListener ev c f s =
     (let key = fullEventName ev c;
          listener = \<lparr>dispatcher = True, callback = f, Listener.event = key, id' = listenerID s\<rparr>
      in case listeners s key of
           None \<Rightarrow> (let (list, s0) = make_slice s in register key list listener s0)
         | Some list \<Rightarrow>
             (case find (\<lambda>i. Equals i listener) (elems list s) of
                Some i \<Rightarrow> new_cell i s
              | None \<Rightarrow> register key list listener s))"

text \<open>
  The typed wrappers \<^verbatim>\<open>OnTextMessage\<close>, \<^verbatim>\<open>OnTwitchMessage\<close>, \<^verbatim>\<open>OnJoin\<close> and
  \<^verbatim>\<open>OnPart\<close> are \<^verbatim>\<open>AddListener\<close> with a fixed event name.
\<close>

definition OnTextMessage ::
  "'cb option \<Rightarrow> Channel option \<Rightarrow> ('cb, 'w) state \<Rightarrow> nat \<times> ('cb, 'w) state" where
  "OnTextMessage f c = AddListener ''TEXT'' c f"

definition OnTwitchMessage ::
  "'cb option \<Rightarrow> Channel option \<Rightarrow> ('cb, 'w) state \<Rightarrow> nat \<times> ('cb, 'w) state" where
  "OnTwitchMessage f c = AddListener ''TWITCH'' c f"

definition OnJoin ::
  "'cb option \<Rightarrow> Channel option \<Rightarrow> ('cb, 'w) state \<Rightarrow> nat \<times> ('cb, 'w) state" where
  "OnJoin f c = AddListener ''JOIN'' c f"

definition OnPart ::
  "'cb option \<Rightarrow> Channel option \<Rightarrow> ('cb, 'w) state \<Rightarrow> nat \<times> ('cb, 'w) state" where
  "OnPart f c = AddListener ''PART'' c f"

text \<open>
  \<^verbatim>\<open>func (self *Listener) Remove()\<close>, on the cell \<open>self\<close>. The two slice expressions
  of \<^verbatim>\<open>append(list[:pos], list[(pos+1):]...)\<close> are the only operations of the function
  that can panic.
\<close>

definition Remove :: "nat \<Rightarrow> ('cb, 'w) state \<Rightarrow> runtime_error + ('cb, 'w) state" where
  "Remove self s =
     (let me = cells s self in
      if \<not> dispatcher me then Inr s
      else case listeners s (Listener.event me) of
             None \<Rightarrow> Inr (s\<lparr>cells := (cells s)(self := me\<lparr>dispatcher := False\<rparr>)\<rparr>)
           | Some list \<Rightarrow>
               (case position (\<lambda>listener. Equals me listener) (elems list s) of
                  None \<Rightarrow> Inr s
                | Some pos \<Rightarrow>
                    (case slice_upto list pos s of
                       Inl e \<Rightarrow> Inl e
                     | Inr front \<Rightarrow>
                         (case slice_from list (pos + 1) s of
                            Inl e \<Rightarrow> Inl e
                          | Inr back \<Rightarrow>
                              (let (list', s1) = append_slice front back s
                               in Inr (s1\<lparr>listeners := (listeners s1)(Listener.event me \<mapsto> list'),
                                         cells := (cells s1)(self := me\<lparr>dispatcher := False\<rparr>)\<rparr>))))))"

text \<open>
  \<^verbatim>\<open>TriggerEvent\<close>, its drain loop (\<open>drain\<close>, with the loop body \<open>deliver\<close>),
  \<^verbatim>\<open>runListeners\<close> with its range loop, and the interpreter of programs call each
  other. The drain loop need not end, so every function takes fuel, which each call
  decreases; \<open>None\<close> is "out of fuel". A panic unwinds through the callers: it leaves
  \<open>lock\<close> as it is. The range loop evaluates the slice header once (\<open>l\<close>) and reads the
  array cell \<open>i\<close> when it gets there; it carries the event key of its \<^verbatim>\<open>runListeners\<close>
  for the history. The updates of \<open>history\<close> and \<open>frames\<close> are the only parts that are not
  in the source.
\<close>

function TriggerEvent ::
      "nat \<Rightarrow> string \<Rightarrow> Channel option \<Rightarrow> ('cb, 'w) walker \<Rightarrow> ('cb, 'w) state
        \<Rightarrow> ('cb, 'w) outcome option"
  and drain :: "nat \<Rightarrow> ('cb, 'w) state \<Rightarrow> ('cb, 'w) outcome option"
  and deliver :: "nat \<Rightarrow> ('cb, 'w) triggerQueueItem \<Rightarrow> ('cb, 'w) state \<Rightarrow> ('cb, 'w) outcome option"
  and runListeners ::
      "nat \<Rightarrow> string \<Rightarrow> ('cb, 'w) walker \<Rightarrow> ('cb, 'w) state \<Rightarrow> ('cb, 'w) outcome option"
  and range_loop ::
      "nat \<Rightarrow> string \<Rightarrow> slice \<Rightarrow> nat \<Rightarrow> ('cb, 'w) walker \<Rightarrow> ('cb, 'w) state
        \<Rightarrow> ('cb, 'w) outcome option"
  and exec :: "nat \<Rightarrow> ('cb, 'w) prog \<Rightarrow> ('cb, 'w) state \<Rightarrow> ('cb, 'w) outcome option"
where
  "TriggerEvent fuel ev c v s =
     (case fuel of 0 \<Rightarrow> None | Suc n \<Rightarrow>
     (let item = \<lparr>triggerQueueItem.event = ev, channel = c, visitor = v\<rparr>;
          s1 = s\<lparr>triggerQueue := triggerQueue s @ [item], history := history s @ [Raised item]\<rparr>
      in if lock s1 then Some (Normal s1)
         else (case drain n (s1\<lparr>lock := True, frames := Suc (frames s1),
                                history := history s1 @ [Locked]\<rparr>) of
                 None \<Rightarrow> None
               | Some (Panicked s2) \<Rightarrow>
                   Some (Panicked (s2\<lparr>frames := frames s2 - 1, history := history s2 @ [Unwound]\<rparr>))
               | Some (Normal s2) \<Rightarrow>
                   Some (Normal (s2\<lparr>lock := False, frames := frames s2 - 1,
                                    history := history s2 @ [Unlocked]\<rparr>)))))"
| "drain fuel s =
     (case fuel of 0 \<Rightarrow> None | Suc n \<Rightarrow>
     (case triggerQueue s of
        [] \<Rightarrow> Some (Normal s)
      | item # rest \<Rightarrow>
          (case deliver n item (s\<lparr>triggerQueue := rest, history := history s @ [Popped item]\<rparr>) of
             Some (Normal s') \<Rightarrow> drain n s'
           | r \<Rightarrow> r)))"
| "deliver fuel item s =
     (case fuel of 0 \<Rightarrow> None | Suc n \<Rightarrow>
     (case runListeners n (triggerQueueItem.event item) (visitor item) s of
        Some (Normal s') \<Rightarrow>
          (case channel item of
             None \<Rightarrow> Some (Normal s')
           | Some c \<Rightarrow>
               runListeners n (triggerQueueItem.event item @ ''#'' @ Name c) (visitor item) s')
      | r \<Rightarrow> r))"
| "runListeners fuel ev v s =
     (case fuel of 0 \<Rightarrow> None | Suc n \<Rightarrow>
     (case listeners s ev of
        None \<Rightarrow> Some (Normal s)
      | Some l \<Rightarrow> range_loop n ev l 0 v s))"
| "range_loop fuel ev l i v s =
     (case fuel of 0 \<Rightarrow> None | Suc n \<Rightarrow>
     (if i < len l
      then (let listener = arrays s (ptr l) ! i in
            case exec n (v (callback listener))
                   (s\<lparr>history := history s @ [Visited ev listener]\<rparr>) of
              Some (Normal s') \<Rightarrow> range_loop n ev l (Suc i) v s'
            | r \<Rightarrow> r)
      else Some (Normal s)))"
| "exec fuel p s =
    (case fuel of 0 \<Rightarrow> None | Suc n \<Rightarrow>
     (case p of
        Return \<Rightarrow> Some (Normal s)
      | Panic \<Rightarrow> Some (Panicked s)
      | Get k \<Rightarrow> exec n (k (world s)) s
      | Put w k \<Rightarrow> exec n k (s\<lparr>world := w\<rparr>)
      | CallTriggerEvent ev c v k \<Rightarrow>
         (case TriggerEvent n ev c v s of
            Some (Normal s') \<Rightarrow> exec n k s'
          | r \<Rightarrow> r)
      | CallAddListener ev c f k \<Rightarrow>
         (let (h, s') = AddListener ev c f s in
          exec n (k h) (s'\<lparr>history := history s' @ [Issued (id' (cells s' h))]\<rparr>))
      | CallRemove h k \<Rightarrow>
         (case Remove h s of
            Inl e \<Rightarrow> Some (Panicked s)
          | Inr s' \<Rightarrow> exec n k (s'\<lparr>history := history s' @ [Removed h]\<rparr>))
      | CallEquals h1 h2 k \<Rightarrow> exec n (k (Equals (cells s h1) (cells s h2))) s
      | CopyListener h k \<Rightarrow> (let (h', s') = new_cell (cells s h) s in exec n (k h') s')
      | Recover p' k \<Rightarrow>
         (case exec n p' s of
            None \<Rightarrow> None
          | Some (Normal s') \<Rightarrow> exec n (k False) s'
          | Some (Panicked s') \<Rightarrow> exec n (k True) s')))"
  by pat_completeness auto
termination
  by (relation "measure (\<lambda>x. case x of
        Inl (Inl (n, _)) \<Rightarrow> n | Inl (Inr (Inl (n, _))) \<Rightarrow> n | Inl (Inr (Inr (n, _))) \<Rightarrow> n
      | Inr (Inl (n, _)) \<Rightarrow> n | Inr (Inr (Inl (n, _))) \<Rightarrow> n | Inr (Inr (Inr (n, _))) \<Rightarrow> n)") auto

declare TriggerEvent.simps [simp del] drain.simps [simp del] deliver.simps [simp del]
  runListeners.simps [simp del] range_loop.simps [simp del] exec.simps [simp del]

text \<open>
  The typed publishers are \<^verbatim>\<open>TriggerEvent\<close> with a fixed event name. Each passes a
  closure that asserts the callback's type and calls it with the payload; here that
  closure is the walker \<open>call\<close>, and \<open>c\<close> is the channel (\<^verbatim>\<open>msg.Channel()\<close> for the two
  message events).
\<close>

definition HandleTextMessage ::
  "nat \<Rightarrow> Channel option \<Rightarrow> ('cb, 'w) walker \<Rightarrow> ('cb, 'w) state \<Rightarrow> ('cb, 'w) outcome option" where
  "HandleTextMessage fuel c call = TriggerEvent fuel ''TEXT'' c call"

definition HandleTwitchMessage ::
  "nat \<Rightarrow> Channel option \<Rightarrow> ('cb, 'w) walker \<Rightarrow> ('cb, 'w) state \<Rightarrow> ('cb, 'w) outcome option" where
  "HandleTwitchMessage fuel c call = TriggerEvent fuel ''TWITCH'' c call"

definition HandleJoin ::
  "nat \<Rightarrow> Channel option \<Rightarrow> ('cb, 'w) walker \<Rightarrow> ('cb, 'w) state \<Rightarrow> ('cb, 'w) outcome option" where
  "HandleJoin fuel c call = TriggerEvent fuel ''JOIN'' c call"

definition HandlePart ::
  "nat \<Rightarrow> Channel option \<Rightarrow> ('cb, 'w) walker \<Rightarrow> ('cb, 'w) state \<Rightarrow> ('cb, 'w) outcome option" where
  "HandlePart fuel c call = TriggerEvent fuel ''PART'' c call"

subsection \<open>Observations and invariants\<close>

text \<open>The listeners registered under a key, in the order of the slice.\<close>

definition registered :: "('cb, 'w) state \<Rightarrow> string \<Rightarrow> 'cb Listener list" where
  "registered s key = (case listeners s key of None \<Rightarrow> [] | Some l \<Rightarrow> elems l s)"

text \<open>No listener under a key: the map has no entry, or the entry is an empty slice.\<close>

definition no_listeners :: "('cb, 'w) state \<Rightarrow> string \<Rightarrow> bool" where
  "no_listeners s key \<longleftrightarrow> (case listeners s key of None \<Rightarrow> True | Some l \<Rightarrow> len l = 0)"

text \<open>The projections of a history.\<close>

definition raised :: "('cb, 'w) observation list \<Rightarrow> ('cb, 'w) triggerQueueItem list" where
  "raised h = concat (map (\<lambda>e. case e of Raised i \<Rightarrow> [i] | _ \<Rightarrow> []) h)"

definition served :: "('cb, 'w) observation list \<Rightarrow> ('cb, 'w) triggerQueueItem list" where
  "served h = concat (map (\<lambda>e. case e of Popped i \<Rightarrow> [i] | _ \<Rightarrow> []) h)"

definition visits :: "('cb, 'w) observation list \<Rightarrow> 'cb Listener list" where
  "visits h = concat (map (\<lambda>e. case e of Visited k l \<Rightarrow> [l] | _ \<Rightarrow> []) h)"

definition issued :: "('cb, 'w) observation list \<Rightarrow> go_int list" where
  "issued h = concat (map (\<lambda>e. case e of Issued i \<Rightarrow> [i] | _ \<Rightarrow> []) h)"

text \<open>The number of calls of \<^verbatim>\<open>AddListener\<close> and \<^verbatim>\<open>Remove\<close> in a history.\<close>

definition registry_calls :: "('cb, 'w) observation list \<Rightarrow> nat" where
  "registry_calls h =
     length (filter (\<lambda>e. case e of Issued i \<Rightarrow> True | Removed c \<Rightarrow> True | _ \<Rightarrow> False) h)"

text \<open>A panic has left a drain loop.\<close>

definition crashed :: "('cb, 'w) observation list \<Rightarrow> bool" where
  "crashed h \<longleftrightarrow> Unwound \<in> set h"

text \<open>The request that was popped last.\<close>

definition last_served :: "('cb, 'w) observation list \<Rightarrow> ('cb, 'w) triggerQueueItem option" where
  "last_served h = (if served h = [] then None else Some (last (served h)))"

text \<open>The event keys whose listeners the delivery of a request runs.\<close>

definition belongs :: "string \<Rightarrow> ('cb, 'w) triggerQueueItem \<Rightarrow> bool" where
  "belongs key item \<longleftrightarrow>
     key = triggerQueueItem.event item
     \<or> key = fullEventName (triggerQueueItem.event item) (channel item)"

text \<open>
  Reading a history from the left, \<open>tracking\<close> follows the number of calls that are inside
  their drain loop and the value of the lock, and fails (\<open>None\<close>) when a drain loop is
  entered while another is active or while the lock is set, when a request is popped or a
  listener is visited outside a drain loop, or when a drain loop is left that was not
  entered. A history with a result has had a result at every earlier moment.
\<close>

definition track :: "(nat \<times> bool) option \<Rightarrow> ('cb, 'w) observation \<Rightarrow> (nat \<times> bool) option" where
  "track st e =
     (case st of
        None \<Rightarrow> None
      | Some (d, lk) \<Rightarrow>
          (case e of
             Locked \<Rightarrow> if d = 0 \<and> \<not> lk then Some (1, True) else None
           | Unlocked \<Rightarrow> if d = 1 \<and> lk then Some (0, False) else None
           | Unwound \<Rightarrow> if d = 1 \<and> lk then Some (0, True) else None
           | Popped i \<Rightarrow> if d = 1 \<and> lk then Some (d, lk) else None
           | Visited k x \<Rightarrow> if d = 1 \<and> lk then Some (d, lk) else None
           | Raised i \<Rightarrow> Some (d, lk)
           | Issued i \<Rightarrow> Some (d, lk)
           | Removed c \<Rightarrow> Some (d, lk)))"

definition tracking :: "('cb, 'w) observation list \<Rightarrow> (nat \<times> bool) option" where
  "tracking h = foldl track (Some (0, False)) h"

text \<open>
  Reading a history from the left, \<open>breadth_first\<close> follows the requests that are raised
  and not yet popped, and the request popped last, and fails (\<open>None\<close>) when a request is
  popped that is not the oldest one pending, or when a listener is visited under an event
  key that does not belong to the request popped last.
\<close>

definition serve ::
  "(('cb, 'w) triggerQueueItem list \<times> ('cb, 'w) triggerQueueItem option) option
    \<Rightarrow> ('cb, 'w) observation
    \<Rightarrow> (('cb, 'w) triggerQueueItem list \<times> ('cb, 'w) triggerQueueItem option) option" where
  "serve st e =
     (case st of
        None \<Rightarrow> None
      | Some (pending, cur) \<Rightarrow>
          (case e of
             Raised i \<Rightarrow> Some (pending @ [i], cur)
           | Popped i \<Rightarrow>
               (case pending of
                  [] \<Rightarrow> None
                | j # rest \<Rightarrow> if i = j then Some (rest, Some i) else None)
           | Visited k x \<Rightarrow>
               (case cur of
                  None \<Rightarrow> None
                | Some i \<Rightarrow> if belongs k i then Some (pending, cur) else None)
           | Locked \<Rightarrow> Some (pending, cur)
           | Unlocked \<Rightarrow> Some (pending, cur)
           | Unwound \<Rightarrow> Some (pending, cur)
           | Issued i \<Rightarrow> Some (pending, cur)
           | Removed c \<Rightarrow> Some (pending, cur)))"

definition breadth_first ::
  "('cb, 'w) observation list
    \<Rightarrow> (('cb, 'w) triggerQueueItem list \<times> ('cb, 'w) triggerQueueItem option) option" where
  "breadth_first h = foldl serve (Some ([], None)) h"

text \<open>
  A predicate on states is preserved when every function of the interpreter, started in
  a state that satisfies it, ends (normally or by a panic) in a state that satisfies it.
  The drain loop and the functions it calls only run inside a drain (\<open>draining\<close>), the
  delivery of a request directly after it was popped, and \<^verbatim>\<open>runListeners\<close> for a key
  that belongs to it.
\<close>

definition draining :: "('cb, 'w) state \<Rightarrow> bool" where
  "draining s \<longleftrightarrow> lock s \<and> 0 < frames s"

text \<open>
  Between two states the lock stays set, the number of active drain loops is the same and
  no request was popped.
\<close>

definition held :: "('cb, 'w) state \<Rightarrow> ('cb, 'w) state \<Rightarrow> bool" where
  "held s t \<longleftrightarrow>
     lock t \<and> frames t = frames s \<and> last_served (history t) = last_served (history s)"

definition preserves :: "nat \<Rightarrow> (('cb, 'w) state \<Rightarrow> bool) \<Rightarrow> bool" where
  "preserves n P \<longleftrightarrow>
     (\<forall>ev c v s out. P s \<longrightarrow> TriggerEvent n ev c v s = Some out \<longrightarrow> P (state_of out))
   \<and> (\<forall>s out. P s \<longrightarrow> draining s \<longrightarrow> drain n s = Some out \<longrightarrow> P (state_of out))
   \<and> (\<forall>item s out. P s \<longrightarrow> draining s \<longrightarrow> last_served (history s) = Some item \<longrightarrow>
         deliver n item s = Some out \<longrightarrow> P (state_of out))
   \<and> (\<forall>ev v item s out. P s \<longrightarrow> draining s \<longrightarrow> last_served (history s) = Some item \<longrightarrow>
         belongs ev item \<longrightarrow> runListeners n ev v s = Some out \<longrightarrow> P (state_of out))
   \<and> (\<forall>ev l i v item s out. P s \<longrightarrow> draining s \<longrightarrow> last_served (history s) = Some item \<longrightarrow>
         belongs ev item \<longrightarrow> range_loop n ev l i v s = Some out \<longrightarrow> P (state_of out))
   \<and> (\<forall>p s out. P s \<longrightarrow> exec n p s = Some out \<longrightarrow> P (state_of out))"

text \<open>The requests raised so far are the requests served so far, then the queue.\<close>

definition fifo :: "('cb, 'w) state \<Rightarrow> bool" where
  "fifo s \<longleftrightarrow> raised (history s) = served (history s) @ triggerQueue s"

text \<open>
  The history so far has kept the discipline of \<open>breadth_first\<close>, and the requests pending
  in it are the queue.
\<close>

definition ordered :: "('cb, 'w) state \<Rightarrow> bool" where
  "ordered s \<longleftrightarrow>
     breadth_first (history s) = Some (triggerQueue s, last_served (history s))"

text \<open>
  The history so far has kept the discipline of \<open>tracking\<close>, which ends with the number of
  active drain loops and the lock of the state; at most one drain loop is active, and then
  the lock is set; the lock is set without an active drain loop exactly when a panic has
  left one.
\<close>

definition tracked :: "('cb, 'w) state \<Rightarrow> bool" where
  "tracked s \<longleftrightarrow>
     tracking (history s) = Some (frames s, lock s)
     \<and> frames s \<le> 1
     \<and> (frames s = 1 \<longrightarrow> lock s \<and> \<not> crashed (history s))
     \<and> (frames s = 0 \<longrightarrow> lock s = crashed (history s))"

text \<open>While the lock is free the queue is empty.\<close>

definition idle_queue_empty :: "('cb, 'w) state \<Rightarrow> bool" where
  "idle_queue_empty s \<longleftrightarrow> lock s \<or> triggerQueue s = []"

subsection \<open>The invariant of the registry\<close>

text \<open>Every slice of the registry points to an allocated array and is no longer than it.\<close>

definition bounds_ok :: "('cb, 'w) state \<Rightarrow> bool" where
  "bounds_ok s \<longleftrightarrow>
     (\<forall>k l. listeners s k = Some l \<longrightarrow> ptr l < next_array s \<and> len l \<le> length (arrays s (ptr l)))"

text \<open>Two keys never share a backing array.\<close>

definition separate :: "('cb, 'w) state \<Rightarrow> bool" where
  "separate s \<longleftrightarrow>
     (\<forall>k k' l l'. listeners s k = Some l \<longrightarrow> listeners s k' = Some l' \<longrightarrow> ptr l = ptr l' \<longrightarrow> k = k')"

text \<open>Every registered listener lies under its own event key.\<close>

definition keyed :: "('cb, 'w) state \<Rightarrow> bool" where
  "keyed s \<longleftrightarrow> (\<forall>k. \<forall>x\<in>set (registered s k). Listener.event x = k)"

text \<open>The invariant of the registry.\<close>

definition sound :: "('cb, 'w) state \<Rightarrow> bool" where
  "sound s \<longleftrightarrow> bounds_ok s \<and> separate s \<and> keyed s"

text \<open>
  The ids handed out so far are the machine integers 0, 1, 2, ... in this order, the
  counter is the next one, and every registered listener has one of the ids handed out.
\<close>

definition numbered :: "('cb, 'w) state \<Rightarrow> bool" where
  "numbered s \<longleftrightarrow>
     listenerID s = of_nat (length (issued (history s)))
     \<and> issued (history s) = map of_nat [0..<length (issued (history s))]
     \<and> (\<forall>k. \<forall>x\<in>set (registered s k). \<exists>j<length (issued (history s)). id' x = of_nat j)"

text \<open>
  This holds as long as \<^verbatim>\<open>AddListener\<close> has returned at most \<open>2^64\<close> times: up to then the
  counter has not come back to an id that it handed out before.
\<close>

definition counted :: "('cb, 'w) state \<Rightarrow> bool" where
  "counted s \<longleftrightarrow> (length (issued (history s)) \<le> 2 ^ 64 \<longrightarrow> numbered s)"

subsection \<open>Fuel and the registry during a delivery\<close>

text \<open>Between two states the registry, the counter, the lock and the visits are the same.\<close>

definition undisturbed :: "('cb, 'w) state \<Rightarrow> ('cb, 'w) state \<Rightarrow> bool" where
  "undisturbed s s' \<longleftrightarrow>
     listeners s' = listeners s \<and> arrays s' = arrays s \<and> listenerID s' = listenerID s
     \<and> lock s' = lock s \<and> visits (history s') = visits (history s)"

text \<open>
  From one state to a later one, calls of \<^verbatim>\<open>AddListener\<close> and \<^verbatim>\<open>Remove\<close> are only
  added to the history, and when none was added the registry is undisturbed.
\<close>

definition calm :: "('cb, 'w) state \<Rightarrow> ('cb, 'w) state \<Rightarrow> bool" where
  "calm s t \<longleftrightarrow>
     registry_calls (history s) \<le> registry_calls (history t)
     \<and> (registry_calls (history t) = registry_calls (history s) \<longrightarrow> undisturbed s t)"

text \<open>Results do not depend on spare fuel: one more unit does not change a result.\<close>

definition more_fuel :: "nat \<Rightarrow> ('cb, 'w) state itself \<Rightarrow> bool" where
  "more_fuel n T \<longleftrightarrow>
     (\<forall>ev c v (s :: ('cb, 'w) state). TriggerEvent n ev c v s \<noteq> None \<longrightarrow>
         TriggerEvent (Suc n) ev c v s = TriggerEvent n ev c v s)
   \<and> (\<forall>(s :: ('cb, 'w) state). drain n s \<noteq> None \<longrightarrow> drain (Suc n) s = drain n s)
   \<and> (\<forall>item (s :: ('cb, 'w) state). deliver n item s \<noteq> None \<longrightarrow>
         deliver (Suc n) item s = deliver n item s)
   \<and> (\<forall>ev v (s :: ('cb, 'w) state). runListeners n ev v s \<noteq> None \<longrightarrow>
         runListeners (Suc n) ev v s = runListeners n ev v s)
   \<and> (\<forall>ev l i v (s :: ('cb, 'w) state). range_loop n ev l i v s \<noteq> None \<longrightarrow>
         range_loop (Suc n) ev l i v s = range_loop n ev l i v s)
   \<and> (\<forall>p (s :: ('cb, 'w) state). exec n p s \<noteq> None \<longrightarrow> exec (Suc n) p s = exec n p s)"

subsection \<open>Example states and programs\<close>

text \<open>The growth policy of the examples: \<^verbatim>\<open>append\<close> doubles a full array.\<close>

definition doubling :: "nat \<Rightarrow> nat" where
  "doubling c = 2 * c"

text \<open>A walker that does nothing with the callback.\<close>

definition leaf_walker :: "(nat, unit) walker" where
  "leaf_walker cb = Return"

text \<open>Two global listeners on JOIN, with cells 0 and 1 and ids 0 and 1.\<close>

definition join_twice :: "(nat, unit) state" where
  "join_twice =
     snd (AddListener ''JOIN'' None (Some 2)
       (snd (AddListener ''JOIN'' None (Some 1) (NewDispatcher doubling ()))))"

text \<open>
  One listener on JOIN (cell 0), its value copied to cell 1, then \<^verbatim>\<open>Remove\<close> on cell 0:
  cell 1 still points to the dispatcher, and its id is in no list.
\<close>

definition stale_copy :: "(nat, unit) state" where
  "stale_copy =
     (let s1 = snd (AddListener ''JOIN'' None (Some 1) (NewDispatcher doubling ()));
          s2 = snd (new_cell (cells s1 0) s1)
      in case Remove 0 s2 of Inr s3 \<Rightarrow> s3 | Inl e \<Rightarrow> s2)"

text \<open>A listener cell for the key PART, which the registry has never seen.\<close>

definition orphan :: "(nat, unit) state" where
  "orphan = (NewDispatcher doubling ())
     \<lparr>cells := (\<lambda>h. \<lparr>dispatcher = True, callback = Some 7, Listener.event = ''PART'', id' = 0\<rparr>),
      next_cell := 1\<rparr>"

text \<open>A dispatcher whose drain loop is running.\<close>

definition busy :: "(nat, unit) state" where
  "busy = (NewDispatcher doubling ())\<lparr>lock := True, frames := 1\<rparr>"

text \<open>
  Nested triggers: the listener on A (callback 1) triggers B and then C, the listener on
  B (callback 2) triggers D. Depth-first delivery would serve A, B, D, C.
\<close>

definition mid_walker :: "(nat, unit) walker" where
  "mid_walker cb = (if cb = Some 2 then CallTriggerEvent ''D'' None leaf_walker Return else Return)"

definition top_walker :: "(nat, unit) walker" where
  "top_walker cb =
     (if cb = Some 1
      then CallTriggerEvent ''B'' None mid_walker (CallTriggerEvent ''C'' None leaf_walker Return)
      else Return)"

definition setup2 :: "(nat, unit) prog" where
  "setup2 =
     CallAddListener ''A'' None (Some 1) (\<lambda>_.
     CallAddListener ''B'' None (Some 2) (\<lambda>_. Return))"

definition two_events :: "(nat, unit) state" where
  "two_events = state_of (the (exec 10 setup2 (NewDispatcher doubling ())))"

definition nested_run :: "(nat, unit) prog" where
  "nested_run =
     CallAddListener ''A'' None (Some 1) (\<lambda>_.
     CallAddListener ''B'' None (Some 2) (\<lambda>_.
     CallTriggerEvent ''A'' None top_walker Return))"

text \<open>The states in which \<open>nested_run\<close> and a top-level trigger of A end.\<close>

definition nested_result :: "(nat, unit) state" where
  "nested_result = state_of (the (exec 20 nested_run (NewDispatcher doubling ())))"

definition trigger_result :: "(nat, unit) state" where
  "trigger_result = state_of (the (TriggerEvent 12 ''A'' None top_walker two_events))"

text \<open>
  Registrations under two keys, a removal, a trigger and one more registration: the id of
  the removed listener is not handed out again.
\<close>

definition churn_run :: "(nat, unit) prog" where
  "churn_run =
     CallAddListener ''JOIN'' None (Some 1) (\<lambda>h0.
     CallAddListener ''JOIN'' (Some (Channel ''foo'')) (Some 2) (\<lambda>h1.
     CallRemove h0 (
     CallTriggerEvent ''JOIN'' (Some (Channel ''foo'')) leaf_walker (
     CallAddListener ''JOIN'' None (Some 3) (\<lambda>h2. Return)))))"

definition churn_result :: "(nat, unit) state" where
  "churn_result = state_of (the (exec 20 churn_run (NewDispatcher doubling ())))"

text \<open>
  A dispatcher caught in the middle of a drain: a global listener on JOIN (id 0), one for
  channel foo (id 1), one for channel bar (id 2), a listener on X (id 3), and a trigger
  of X whose walker panics. The panic leaves the lock set.
\<close>

definition panic_walker :: "(nat, unit) walker" where
  "panic_walker cb = Panic"

definition panic_run :: "(nat, unit) prog" where
  "panic_run =
     CallAddListener ''JOIN'' None (Some 1) (\<lambda>_.
     CallAddListener ''JOIN'' (Some (Channel ''foo'')) (Some 2) (\<lambda>_.
     CallAddListener ''JOIN'' (Some (Channel ''bar'')) (Some 3) (\<lambda>_.
     CallAddListener ''X'' None (Some 0) (\<lambda>_.
     CallTriggerEvent ''X'' None panic_walker Return))))"

definition mid_drain :: "(nat, unit) state" where
  "mid_drain = state_of (the (exec 20 panic_run (NewDispatcher doubling ())))"

text \<open>
  The request "JOIN in channel foo", and the state after its delivery. Its walker would
  remove a listener for a callback that nobody has registered.
\<close>

definition wary_walker :: "(nat, unit) walker" where
  "wary_walker cb = (if cb = Some 99 then CallRemove 0 Return else Return)"

definition join_foo :: "(nat, unit) triggerQueueItem" where
  "join_foo = \<lparr>triggerQueueItem.event = ''JOIN'', channel = Some (Channel ''foo''), visitor = wary_walker\<rparr>"

definition mid_result :: "(nat, unit) state" where
  "mid_result = state_of (the (deliver 6 join_foo mid_drain))"

text \<open>
  Three listeners on E (cells and ids 0, 1, 2), and a walker under which the first
  listener's callback removes itself while the event is being delivered.
\<close>

definition setup3 :: "(nat, unit) prog" where
  "setup3 =
     CallAddListener ''E'' None (Some 0) (\<lambda>_.
     CallAddListener ''E'' None (Some 1) (\<lambda>_.
     CallAddListener ''E'' None (Some 2) (\<lambda>_. Return)))"

definition three_listeners :: "(nat, unit) state" where
  "three_listeners = state_of (the (exec 10 setup3 (NewDispatcher doubling ())))"

definition self_removing :: "(nat, unit) walker" where
  "self_removing cb = (if cb = Some 0 then CallRemove 0 Return else Return)"

definition remove_self_result :: "(nat, unit) state" where
  "remove_self_result = state_of (the (TriggerEvent 12 ''E'' None self_removing three_listeners))"

text \<open>With this walker the callback of the first of them panics.\<close>

definition first_panics :: "(nat, unit) walker" where
  "first_panics cb = (if cb = Some 0 then Panic else Return)"

definition first_panics_result :: "(nat, unit) state" where
  "first_panics_result = state_of (the (TriggerEvent 12 ''E'' None first_panics three_listeners))"

text \<open>
  A listener on A (id 0) that triggers B and then panics, and a listener on B (id 1): the
  trigger of A ends in a panic.
\<close>

definition raise_then_panic :: "(nat, unit) walker" where
  "raise_then_panic cb = CallTriggerEvent ''B'' None leaf_walker Panic"

definition abort_run :: "(nat, unit) prog" where
  "abort_run =
     CallAddListener ''A'' None (Some 1) (\<lambda>_.
     CallAddListener ''B'' None (Some 2) (\<lambda>_.
     CallTriggerEvent ''A'' None raise_then_panic Return))"

definition abort_result :: "(nat, unit) state" where
  "abort_result = state_of (the (exec 20 abort_run (NewDispatcher doubling ())))"

text \<open>
  A listener on X (id 0) whose call panics and a listener on Y (id 1): the caller
  recovers from the panic of the trigger of X and then triggers Y.
\<close>

definition stuck_run :: "(nat, unit) prog" where
  "stuck_run =
     CallAddListener ''X'' None (Some 1) (\<lambda>_.
     CallAddListener ''Y'' None (Some 2) (\<lambda>_.
     Recover (CallTriggerEvent ''X'' None panic_walker Return)
       (\<lambda>_. CallTriggerEvent ''Y'' None leaf_walker Return)))"

definition stuck_result :: "(nat, unit) state" where
  "stuck_result = state_of (the (exec 20 stuck_run (NewDispatcher doubling ())))"

text \<open>
  A program that registers \<open>n\<close> listeners on E, one after the other, and the state that
  one such registration leaves.
\<close>

primrec register_many :: "nat \<Rightarrow> (nat, unit) prog" where
  "register_many 0 = Return"
| "register_many (Suc n) = CallAddListener ''E'' None None (\<lambda>h. register_many n)"

definition registered_once :: "(nat, unit) state \<Rightarrow> (nat, unit) state" where
  "registered_once s =
     (let (h, s') = AddListener ''E'' None None s
      in s'\<lparr>history := history s' @ [Issued (id' (cells s' h))]\<rparr>)"

text \<open>The dispatcher after \<open>2^64\<close> registrations, and after \<open>2^63 + 1\<close>.\<close>

definition wrapped :: "(nat, unit) state" where
  "wrapped = (registered_once ^^ (2 ^ 64)) (NewDispatcher doubling ())"

definition past_max :: "(nat, unit) state" where
  "past_max = (registered_once ^^ (2 ^ 63 + 1)) (NewDispatcher doubling ())"

text \<open>
  The scoping scenario: a global listener on JOIN (id 0) and a listener on JOIN for
  channel foo (id 1).
\<close>

definition global_and_scoped :: "(nat, unit) state" where
  "global_and_scoped =
     snd (OnJoin (Some 1) (Some (Channel ''foo''))
       (snd (OnJoin (Some 0) None (NewDispatcher doubling ()))))"

section \<open>Lemmas\<close>

lemma TriggerEvent_0 [simp]: "TriggerEvent 0 ev c v s = None"
  by (subst TriggerEvent.simps) simp

lemma TriggerEvent_Suc:
  "TriggerEvent (Suc n) ev c v s =
     (let item = \<lparr>triggerQueueItem.event = ev, channel = c, visitor = v\<rparr>;
          s1 = s\<lparr>triggerQueue := triggerQueue s @ [item], history := history s @ [Raised item]\<rparr>
      in if lock s1 then Some (Normal s1)
         else (case drain n (s1\<lparr>lock := True, frames := Suc (frames s1),
                                history := history s1 @ [Locked]\<rparr>) of
                 None \<Rightarrow> None
               | Some (Panicked s2) \<Rightarrow>
                   Some (Panicked (s2\<lparr>frames := frames s2 - 1, history := history s2 @ [Unwound]\<rparr>))
               | Some (Normal s2) \<Rightarrow>
                   Some (Normal (s2\<lparr>lock := False, frames := frames s2 - 1,
                                    history := history s2 @ [Unlocked]\<rparr>))))"
  by (subst TriggerEvent.simps) simp

lemma drain_0 [simp]: "drain 0 s = None"
  by (subst drain.simps) simp

lemma drain_Suc:
  "drain (Suc n) s =
     (case triggerQueue s of
        [] \<Rightarrow> Some (Normal s)
      | item # rest \<Rightarrow>
          (case deliver n item (s\<lparr>triggerQueue := rest, history := history s @ [Popped item]\<rparr>) of
             Some (Normal s') \<Rightarrow> drain n s'
           | r \<Rightarrow> r))"
  by (subst drain.simps) simp

lemma deliver_0 [simp]: "deliver 0 item s = None"
  by (subst deliver.simps) simp

lemma deliver_Suc:
  "deliver (Suc n) item s =
     (case runListeners n (triggerQueueItem.event item) (visitor item) s of
        Some (Normal s') \<Rightarrow>
          (case channel item of
             None \<Rightarrow> Some (Normal s')
           | Some c \<Rightarrow>
               runListeners n (triggerQueueItem.event item @ ''#'' @ Name c) (visitor item) s')
      | r \<Rightarrow> r)"
  by (subst deliver.simps) simp

lemma runListeners_0 [simp]: "runListeners 0 ev v s = None"
  by (subst runListeners.simps) simp

lemma runListeners_Suc:
  "runListeners (Suc n) ev v s =
     (case listeners s ev of
        None \<Rightarrow> Some (Normal s)
      | Some l \<Rightarrow> range_loop n ev l 0 v s)"
  by (subst runListeners.simps) simp

lemma range_loop_0 [simp]: "range_loop 0 ev l i v s = None"
  by (subst range_loop.simps) simp

lemma range_loop_Suc:
  "range_loop (Suc n) ev l i v s =
     (if i < len l
      then (let listener = arrays s (ptr l) ! i in
            case exec n (v (callback listener))
                   (s\<lparr>history := history s @ [Visited ev listener]\<rparr>) of
              Some (Normal s') \<Rightarrow> range_loop n ev l (Suc i) v s'
            | r \<Rightarrow> r)
      else Some (Normal s))"
  by (subst range_loop.simps) simp

lemma exec_0 [simp]: "exec 0 p s = None"
  by (subst exec.simps) simp

lemma exec_Suc:
  "exec (Suc n) p s =
     (case p of
        Return \<Rightarrow> Some (Normal s)
      | Panic \<Rightarrow> Some (Panicked s)
      | Get k \<Rightarrow> exec n (k (world s)) s
      | Put w k \<Rightarrow> exec n k (s\<lparr>world := w\<rparr>)
      | CallTriggerEvent ev c v k \<Rightarrow>
         (case TriggerEvent n ev c v s of
            Some (Normal s') \<Rightarrow> exec n k s'
          | r \<Rightarrow> r)
      | CallAddListener ev c f k \<Rightarrow>
         (let (h, s') = AddListener ev c f s in
          exec n (k h) (s'\<lparr>history := history s' @ [Issued (id' (cells s' h))]\<rparr>))
      | CallRemove h k \<Rightarrow>
         (case Remove h s of
            Inl e \<Rightarrow> Some (Panicked s)
          | Inr s' \<Rightarrow> exec n k (s'\<lparr>history := history s' @ [Removed h]\<rparr>))
      | CallEquals h1 h2 k \<Rightarrow> exec n (k (Equals (cells s h1) (cells s h2))) s
      | CopyListener h k \<Rightarrow> (let (h', s') = new_cell (cells s h) s in exec n (k h') s')
      | Recover p' k \<Rightarrow>
         (case exec n p' s of
            None \<Rightarrow> None
          | Some (Normal s') \<Rightarrow> exec n (k False) s'
          | Some (Panicked s') \<Rightarrow> exec n (k True) s'))"
  by (subst exec.simps) simp

lemma state_of_simps [simp]: "state_of (Normal s) = s" "state_of (Panicked s) = s"
  by (simp_all add: state_of_def)

lemma drain_Normal_empty: "drain n s = Some (Normal s') \<Longrightarrow> triggerQueue s' = []"
proof (induction n arbitrary: s)
  case 0
  then show ?case by simp
next
  case (Suc n)
  show ?case
  proof (cases "triggerQueue s")
    case Nil
    with Suc.prems show ?thesis by (auto simp: drain_Suc)
  next
    case (Cons item rest)
    with Suc.prems obtain s1 where "drain n s1 = Some (Normal s')"
      by (auto simp: drain_Suc split: option.splits outcome.splits)
    then show ?thesis by (rule Suc.IH)
  qed
qed

subsection \<open>Histories\<close>

lemma raised_simps [simp]:
  "raised [] = []"
  "raised (h @ h') = raised h @ raised h'"
  "raised (e # h) = (case e of Raised i \<Rightarrow> [i] | _ \<Rightarrow> []) @ raised h"
  by (simp_all add: raised_def)

lemma served_simps [simp]:
  "served [] = []"
  "served (h @ h') = served h @ served h'"
  "served (e # h) = (case e of Popped i \<Rightarrow> [i] | _ \<Rightarrow> []) @ served h"
  by (simp_all add: served_def)

lemma visits_simps [simp]:
  "visits [] = []"
  "visits (h @ h') = visits h @ visits h'"
  "visits (e # h) = (case e of Visited k x \<Rightarrow> [x] | _ \<Rightarrow> []) @ visits h"
  by (simp_all add: visits_def)

lemma issued_simps [simp]:
  "issued [] = []"
  "issued (h @ h') = issued h @ issued h'"
  "issued (e # h) = (case e of Issued i \<Rightarrow> [i] | _ \<Rightarrow> []) @ issued h"
  by (simp_all add: issued_def)

lemma registry_calls_simps [simp]:
  "registry_calls [] = 0"
  "registry_calls (h @ h') = registry_calls h + registry_calls h'"
  "registry_calls (e # h) =
     (case e of Issued i \<Rightarrow> 1 | Removed c \<Rightarrow> 1 | _ \<Rightarrow> 0) + registry_calls h"
  by (simp_all add: registry_calls_def split: observation.splits)

lemma crashed_simps [simp]:
  "crashed [] = False"
  "crashed (h @ h') = (crashed h \<or> crashed h')"
  "crashed (e # h) = (e = Unwound \<or> crashed h)"
  by (auto simp: crashed_def)

lemma last_served_simps [simp]:
  "last_served [] = None"
  "last_served (h @ [e]) = (case e of Popped i \<Rightarrow> Some i | _ \<Rightarrow> last_served h)"
  by (simp_all add: last_served_def split: observation.splits)

lemma last_served_two [simp]:
  "last_served (h @ [e, e']) =
     (case e' of Popped i \<Rightarrow> Some i
      | _ \<Rightarrow> (case e of Popped i \<Rightarrow> Some i | _ \<Rightarrow> last_served h))"
  using last_served_simps(2) [of "h @ [e]" e'] by (simp split: observation.splits)

lemma tracking_simps [simp]:
  "tracking [] = Some (0, False)"
  "tracking (h @ h') = foldl track (tracking h) h'"
  by (simp_all add: tracking_def)

lemma breadth_first_simps [simp]:
  "breadth_first [] = Some ([], None)"
  "breadth_first (h @ h') = foldl serve (breadth_first h) h'"
  by (simp_all add: breadth_first_def)

lemma track_None [simp]: "foldl track None h = None"
  by (induction h) (simp_all add: track_def)

lemma serve_None [simp]: "foldl serve None h = None"
  by (induction h) (simp_all add: serve_def)

text \<open>A history that is in order was in order at every earlier moment.\<close>

lemma tracking_prefix: "tracking (h @ h') = Some r \<Longrightarrow> \<exists>r'. tracking h = Some r'"
  by (cases "tracking h") simp_all

lemma breadth_first_prefix: "breadth_first (h @ h') = Some r \<Longrightarrow> \<exists>r'. breadth_first h = Some r'"
  by (cases "breadth_first h") simp_all

text \<open>
  In a history that is in order at most one drain loop is active, and while one is, the
  lock is set.
\<close>

lemma tracking_bounds: "tracking h = Some (d, lk) \<Longrightarrow> d \<le> 1 \<and> (d = 1 \<longrightarrow> lk)"
proof (induction h arbitrary: d lk rule: rev_induct)
  case Nil
  then show ?case by simp
next
  case (snoc e h)
  from snoc.prems obtain d' lk' where t: "tracking h = Some (d', lk')"
    by (cases "tracking h") (auto simp: track_def)
  from snoc.IH [OF t] snoc.prems t show ?case
    by (cases e) (auto simp: track_def split: if_splits)
qed

subsection \<open>The search loop and Remove\<close>

lemma position_None: "position P xs = None \<longleftrightarrow> (\<forall>x\<in>set xs. \<not> P x)"
  by (induction xs) auto

lemma position_Some:
  "position P xs = Some pos \<Longrightarrow> pos < length xs \<and> P (xs ! pos) \<and> (\<forall>i<pos. \<not> P (xs ! i))"
proof (induction xs arbitrary: pos)
  case Nil
  then show ?case by simp
next
  case (Cons x xs)
  show ?case
  proof (cases "P x")
    case True
    with Cons.prems show ?thesis by simp
  next
    case False
    with Cons.prems obtain q where q: "position P xs = Some q" "pos = Suc q"
      by auto
    from Cons.IH [OF q(1)] False q(2) show ?thesis
      by (auto simp: nth_Cons split: nat.splits)
  qed
qed

lemma position_prefix:
  "\<forall>y\<in>set pre. \<not> P y \<Longrightarrow> P x \<Longrightarrow> position P (pre @ x # post) = Some (length pre)"
  by (induction pre) auto

lemma position_first:
  assumes "\<exists>x\<in>set xs. P x"
  shows "\<exists>pre x post. xs = pre @ x # post \<and> P x \<and> (\<forall>y\<in>set pre. \<not> P y) \<and>
           position P xs = Some (length pre)"
proof -
  from assms obtain pre x post where "xs = pre @ x # post" "P x" "\<forall>y\<in>set pre. \<not> P y"
    by (metis split_list_first_prop)
  then show ?thesis using position_prefix [of pre P x post] by blast
qed

lemma Remove_detached: "\<not> dispatcher (cells s h) \<Longrightarrow> Remove h s = Inr s"
  by (simp add: Remove_def)

lemma Remove_absent:
  "dispatcher (cells s h) \<Longrightarrow> listeners s (Listener.event (cells s h)) = None \<Longrightarrow>
     Remove h s = Inr (s\<lparr>cells := (cells s)(h := (cells s h)\<lparr>dispatcher := False\<rparr>)\<rparr>)"
  by (simp add: Remove_def)

lemma Remove_not_found:
  "dispatcher (cells s h) \<Longrightarrow> listeners s (Listener.event (cells s h)) = Some l \<Longrightarrow>
     \<forall>y\<in>set (elems l s). id' y \<noteq> id' (cells s h) \<Longrightarrow> Remove h s = Inr s"
proof -
  assume a: "dispatcher (cells s h)" "listeners s (Listener.event (cells s h)) = Some l"
    and n: "\<forall>y\<in>set (elems l s). id' y \<noteq> id' (cells s h)"
  from n have "position (\<lambda>listener. Equals (cells s h) listener) (elems l s) = None"
    by (auto simp: position_None Equals_def)
  with a show ?thesis by (simp add: Remove_def)
qed

lemma Remove_found:
  assumes att: "dispatcher (cells s h)"
    and key: "listeners s (Listener.event (cells s h)) = Some l"
    and pos: "position (\<lambda>listener. Equals (cells s h) listener) (elems l s) = Some pos"
  shows "Remove h s =
           Inr (s\<lparr>listeners := (listeners s)(Listener.event (cells s h) \<mapsto>
                     l\<lparr>len := length (elems l s) - 1\<rparr>),
                  arrays := (arrays s)(ptr l :=
                     take pos (arrays s (ptr l)) @ drop (Suc pos) (elems l s) @
                     drop (length (elems l s) - 1) (arrays s (ptr l))),
                  cells := (cells s)(h := (cells s h)\<lparr>dispatcher := False\<rparr>)\<rparr>)"
proof -
  from position_Some [OF pos] have lt: "pos < length (elems l s)" by simp
  then have b1: "pos \<le> length (arrays s (ptr l))" and b2: "Suc pos \<le> len l"
    by (auto simp: elems_def)
  have up: "slice_upto l pos s = Inr (l\<lparr>len := pos\<rparr>)"
    using b1 by (simp add: slice_upto_def)
  have fr: "slice_from l (Suc pos) s = Inr (drop (Suc pos) (elems l s))"
    using b2 by (simp add: slice_from_def)
  have ap: "append_slice (l\<lparr>len := pos\<rparr>) (drop (Suc pos) (elems l s)) s =
           (l\<lparr>len := length (elems l s) - 1\<rparr>,
            s\<lparr>arrays := (arrays s)(ptr l :=
                 take pos (arrays s (ptr l)) @ drop (Suc pos) (elems l s) @
                 drop (length (elems l s) - 1) (arrays s (ptr l)))\<rparr>)"
    using lt by (auto simp: append_slice_def elems_def Let_def min_def)
  show ?thesis
    using att key pos by (simp add: Remove_def Let_def up fr ap)
qed

lemma Remove_total: "\<exists>s'. Remove h s = Inr s'"
proof (cases "dispatcher (cells s h)")
  case False
  then show ?thesis by (simp add: Remove_detached)
next
  case att: True
  show ?thesis
  proof (cases "listeners s (Listener.event (cells s h))")
    case None
    with att show ?thesis by (simp add: Remove_absent)
  next
    case (Some l)
    show ?thesis
    proof (cases "position (\<lambda>listener. Equals (cells s h) listener) (elems l s)")
      case None
      with att Some show ?thesis by (simp add: Remove_def)
    next
      case (Some pos)
      from Remove_found [OF att \<open>listeners s (Listener.event (cells s h)) = Some l\<close> Some]
      show ?thesis by blast
    qed
  qed
qed

lemma Remove_again:
  assumes "Remove h s = Inr s'"
  shows "Remove h s' = Inr s'"
proof (cases "dispatcher (cells s h)")
  case False
  with assms show ?thesis by (simp add: Remove_def)
next
  case att: True
  show ?thesis
  proof (cases "listeners s (Listener.event (cells s h))")
    case None
    with att assms have "\<not> dispatcher (cells s' h)"
      by (auto simp: Remove_absent)
    then show ?thesis by (rule Remove_detached)
  next
    case (Some l)
    show ?thesis
    proof (cases "position (\<lambda>listener. Equals (cells s h) listener) (elems l s)")
      case None
      with att Some assms have "s' = s" by (simp add: Remove_def)
      with assms show ?thesis by simp
    next
      case (Some pos)
      from Remove_found [OF att \<open>listeners s (Listener.event (cells s h)) = Some l\<close> Some] assms
      have "\<not> dispatcher (cells s' h)" by auto
      then show ?thesis by (rule Remove_detached)
    qed
  qed
qed

subsection \<open>What the registry operations leave alone\<close>

lemma append_slice_frame:
  "append_slice l xs s = (l', s') \<Longrightarrow>
     listeners s' = listeners s \<and> listenerID s' = listenerID s \<and> lock s' = lock s
     \<and> triggerQueue s' = triggerQueue s \<and> cells s' = cells s \<and> next_cell s' = next_cell s
     \<and> growslice s' = growslice s \<and> world s' = world s \<and> history s' = history s
     \<and> frames s' = frames s"
  by (auto simp: append_slice_def Let_def split: if_splits)

lemma register_frame:
  "register key l x s = (h, s') \<Longrightarrow>
     lock s' = lock s \<and> triggerQueue s' = triggerQueue s
     \<and> growslice s' = growslice s \<and> world s' = world s \<and> history s' = history s
     \<and> frames s' = frames s"
  by (auto simp: register_def new_cell_def split: prod.splits dest!: append_slice_frame)

lemma AddListener_frame:
  "AddListener ev c f s = (h, s') \<Longrightarrow>
     lock s' = lock s \<and> triggerQueue s' = triggerQueue s
     \<and> growslice s' = growslice s \<and> world s' = world s \<and> history s' = history s
     \<and> frames s' = frames s"
  by (auto simp: AddListener_def Let_def make_slice_def new_cell_def
      split: option.splits prod.splits dest!: register_frame)

lemma Remove_frame:
  "Remove h s = Inr s' \<Longrightarrow>
     listenerID s' = listenerID s \<and> lock s' = lock s \<and> triggerQueue s' = triggerQueue s
     \<and> next_cell s' = next_cell s \<and> growslice s' = growslice s \<and> world s' = world s
     \<and> history s' = history s \<and> frames s' = frames s"
  by (auto simp: Remove_def Let_def split: if_splits option.splits sum.splits prod.splits
      dest!: append_slice_frame)

subsection \<open>Under the lock nothing is popped and no drain loop starts\<close>

lemma held_refl: "lock s \<Longrightarrow> held s s"
  by (simp add: held_def)

lemma held_trans: "held s t \<Longrightarrow> held t u \<Longrightarrow> held s u"
  by (simp add: held_def)

lemma TriggerEvent_locked:
  "lock s \<Longrightarrow> TriggerEvent (Suc n) ev c v s =
     Some (Normal (s\<lparr>triggerQueue := triggerQueue s @ [\<lparr>triggerQueueItem.event = ev, channel = c, visitor = v\<rparr>],
                     history := history s @ [Raised \<lparr>triggerQueueItem.event = ev, channel = c, visitor = v\<rparr>]\<rparr>))"
  by (simp add: TriggerEvent_Suc Let_def)

lemma exec_locked: "lock s \<Longrightarrow> exec n p s = Some out \<Longrightarrow> held s (state_of out)"
proof (induction n arbitrary: p s out)
  case 0
  then show ?case by simp
next
  case (Suc n)
  note lk = Suc.prems(1)
  have step: "held s (state_of out)" if "held s t" "exec n q t = Some out" for t q
  proof -
    from that(1) have "lock t" by (simp add: held_def)
    from Suc.IH [OF this that(2)] that(1) show ?thesis by (rule held_trans [rotated])
  qed
  show ?case
  proof (cases p)
    case Return
    with Suc.prems show ?thesis by (auto simp: exec_Suc held_def)
  next
    case Panic
    with Suc.prems show ?thesis by (auto simp: exec_Suc held_def)
  next
    case (Get k)
    with Suc.prems have "exec n (k (world s)) s = Some out" by (simp add: exec_Suc)
    with held_refl [OF lk] show ?thesis by (rule step)
  next
    case (Put w k)
    with Suc.prems have "exec n k (s\<lparr>world := w\<rparr>) = Some out" by (simp add: exec_Suc)
    moreover have "held s (s\<lparr>world := w\<rparr>)" using lk by (simp add: held_def)
    ultimately show ?thesis using step by blast
  next
    case (CallTriggerEvent ev c v k)
    define s1 where "s1 = s\<lparr>triggerQueue := triggerQueue s @ [\<lparr>triggerQueueItem.event = ev, channel = c, visitor = v\<rparr>],
                     history := history s @ [Raised \<lparr>triggerQueueItem.event = ev, channel = c, visitor = v\<rparr>]\<rparr>"
    from Suc.prems CallTriggerEvent obtain m where m: "n = Suc m"
      by (cases n) (auto simp: exec_Suc)
    with lk have "TriggerEvent n ev c v s = Some (Normal s1)"
      by (simp add: TriggerEvent_locked s1_def)
    with Suc.prems CallTriggerEvent have "exec n k s1 = Some out" by (simp add: exec_Suc)
    moreover have "held s s1" using lk by (simp add: held_def s1_def)
    ultimately show ?thesis using step by blast
  next
    case (CallAddListener ev c f k)
    obtain h s' where a: "AddListener ev c f s = (h, s')" by (cases "AddListener ev c f s")
    with Suc.prems CallAddListener
    have "exec n (k h) (s'\<lparr>history := history s' @ [Issued (id' (cells s' h))]\<rparr>) = Some out"
      by (simp add: exec_Suc)
    moreover have "held s (s'\<lparr>history := history s' @ [Issued (id' (cells s' h))]\<rparr>)"
      using lk AddListener_frame [OF a] by (simp add: held_def)
    ultimately show ?thesis using step by blast
  next
    case (CallRemove h k)
    from Remove_total [of h s] obtain s' where r: "Remove h s = Inr s'" by blast
    with Suc.prems CallRemove
    have "exec n k (s'\<lparr>history := history s' @ [Removed h]\<rparr>) = Some out"
      by (simp add: exec_Suc)
    moreover have "held s (s'\<lparr>history := history s' @ [Removed h]\<rparr>)"
      using lk Remove_frame [OF r] by (simp add: held_def)
    ultimately show ?thesis using step by blast
  next
    case (CallEquals h1 h2 k)
    with Suc.prems have "exec n (k (Equals (cells s h1) (cells s h2))) s = Some out"
      by (simp add: exec_Suc)
    with held_refl [OF lk] show ?thesis by (rule step)
  next
    case (CopyListener h k)
    define s1 where "s1 = s\<lparr>cells := (cells s)(next_cell s := cells s h), next_cell := Suc (next_cell s)\<rparr>"
    from Suc.prems CopyListener have "exec n (k (next_cell s)) s1 = Some out"
      by (simp add: exec_Suc new_cell_def s1_def)
    moreover have "held s s1" using lk by (simp add: held_def s1_def)
    ultimately show ?thesis using step by blast
  next
    case (Recover p' k)
    with Suc.prems obtain r where r: "exec n p' s = Some r"
      and k: "exec n (k (case r of Normal _ \<Rightarrow> False | Panicked _ \<Rightarrow> True)) (state_of r) = Some out"
      by (auto simp: exec_Suc split: option.splits outcome.splits)
    from Suc.IH [OF lk r] have "held s (state_of r)" .
    then show ?thesis using k by (rule step)
  qed
qed

lemma range_loop_locked:
  "lock s \<Longrightarrow> range_loop n ev l i v s = Some out \<Longrightarrow> held s (state_of out)"
proof (induction n arbitrary: i s)
  case 0
  then show ?case by simp
next
  case (Suc n)
  show ?case
  proof (cases "i < len l")
    case False
    with Suc.prems show ?thesis by (auto simp: range_loop_Suc held_def)
  next
    case True
    define x where "x = arrays s (ptr l) ! i"
    define s0 where "s0 = s\<lparr>history := history s @ [Visited ev x]\<rparr>"
    have h0: "held s s0" using Suc.prems(1) by (simp add: held_def s0_def)
    then have l0: "lock s0" by (simp add: held_def)
    from Suc.prems(2) True obtain r where ex: "exec n (v (callback x)) s0 = Some r"
      by (auto simp: range_loop_Suc Let_def x_def s0_def split: option.splits)
    from exec_locked [OF l0 ex] h0 have h1: "held s (state_of r)" by (rule held_trans [rotated])
    show ?thesis
    proof (cases r)
      case (Panicked t)
      with Suc.prems(2) True ex have "out = r"
        by (auto simp: range_loop_Suc Let_def x_def s0_def)
      with h1 show ?thesis by simp
    next
      case (Normal t)
      with Suc.prems(2) True ex have "range_loop n ev l (Suc i) v t = Some out"
        by (auto simp: range_loop_Suc Let_def x_def s0_def)
      moreover from h1 Normal have "lock t" by (simp add: held_def)
      ultimately have "held t (state_of out)" using Suc.IH by blast
      with h1 Normal show ?thesis by (auto intro: held_trans)
    qed
  qed
qed

lemma runListeners_locked:
  "lock s \<Longrightarrow> runListeners n ev v s = Some out \<Longrightarrow> held s (state_of out)"
proof (cases n)
  case 0
  assume "runListeners n ev v s = Some out"
  with 0 show ?thesis by simp
next
  case (Suc m)
  assume lk: "lock s" and run: "runListeners n ev v s = Some out"
  show ?thesis
  proof (cases "listeners s ev")
    case None
    with run Suc lk show ?thesis by (auto simp: runListeners_Suc held_def)
  next
    case (Some l)
    with run Suc have "range_loop m ev l 0 v s = Some out" by (simp add: runListeners_Suc)
    with lk show ?thesis by (rule range_loop_locked)
  qed
qed

lemma deliver_locked:
  assumes lk: "lock s" and run: "deliver n item s = Some out"
  shows "held s (state_of out)"
proof (cases n)
  case 0
  with run show ?thesis by simp
next
  case (Suc m)
  from run Suc obtain r where
    r1: "runListeners m (triggerQueueItem.event item) (visitor item) s = Some r"
    by (auto simp: deliver_Suc split: option.splits)
  from runListeners_locked [OF lk r1] have h1: "held s (state_of r)" .
  show ?thesis
  proof (cases r)
    case (Panicked t)
    with run Suc r1 have "out = r" by (auto simp: deliver_Suc)
    with h1 show ?thesis by simp
  next
    case (Normal t)
    show ?thesis
    proof (cases "channel item")
      case None
      with run Suc r1 Normal have "out = r" by (auto simp: deliver_Suc)
      with h1 show ?thesis by simp
    next
      case (Some ch)
      with run Suc r1 Normal
      have "runListeners m (triggerQueueItem.event item @ ''#'' @ Name ch) (visitor item) t = Some out"
        by (auto simp: deliver_Suc)
      moreover from h1 Normal have "lock t" by (simp add: held_def)
      ultimately have "held t (state_of out)" by (rule runListeners_locked [rotated])
      with h1 Normal show ?thesis by (auto intro: held_trans)
    qed
  qed
qed

lemma drain_locked:
  "lock s \<Longrightarrow> drain n s = Some out \<Longrightarrow> lock (state_of out) \<and> frames (state_of out) = frames s"
proof (induction n arbitrary: s)
  case 0
  then show ?case by simp
next
  case (Suc n)
  show ?case
  proof (cases "triggerQueue s")
    case Nil
    with Suc.prems show ?thesis by (auto simp: drain_Suc)
  next
    case (Cons item rest)
    define s1 where "s1 = s\<lparr>triggerQueue := rest, history := history s @ [Popped item]\<rparr>"
    have l1: "lock s1" using Suc.prems(1) by (simp add: s1_def)
    from Suc.prems(2) Cons obtain r where dl: "deliver n item s1 = Some r"
      by (auto simp: drain_Suc s1_def split: option.splits)
    from deliver_locked [OF l1 dl] have h: "lock (state_of r)" "frames (state_of r) = frames s"
      by (simp_all add: held_def s1_def)
    show ?thesis
    proof (cases r)
      case (Panicked t)
      with Suc.prems(2) Cons dl have "out = r" by (auto simp: drain_Suc s1_def)
      with h show ?thesis by simp
    next
      case (Normal t)
      with Suc.prems(2) Cons dl have "drain n t = Some out" by (auto simp: drain_Suc s1_def)
      with Suc.IH [of t] h Normal show ?thesis by simp
    qed
  qed
qed

text \<open>Every call leaves as many drain loops active as it found.\<close>

lemma TriggerEvent_frames:
  assumes "TriggerEvent n ev c v s = Some out"
  shows "frames (state_of out) = frames s"
proof (cases n)
  case 0
  with assms show ?thesis by simp
next
  case (Suc m)
  define item where "item = \<lparr>triggerQueueItem.event = ev, channel = c, visitor = v\<rparr>"
  show ?thesis
  proof (cases "lock s")
    case True
    with assms Suc show ?thesis by (auto simp: TriggerEvent_locked)
  next
    case False
    define s1 where "s1 = s\<lparr>triggerQueue := triggerQueue s @ [item],
                             lock := True, frames := Suc (frames s),
                             history := history s @ [Raised item, Locked]\<rparr>"
    from assms Suc False obtain r where dr: "drain m s1 = Some r"
      and out: "out = (case r of
                  Panicked s2 \<Rightarrow> Panicked (s2\<lparr>frames := frames s2 - 1, history := history s2 @ [Unwound]\<rparr>)
                | Normal s2 \<Rightarrow> Normal (s2\<lparr>lock := False, frames := frames s2 - 1,
                                          history := history s2 @ [Unlocked]\<rparr>))"
      by (auto simp: TriggerEvent_Suc Let_def s1_def item_def split: option.splits outcome.splits)
    have "lock s1" by (simp add: s1_def)
    from drain_locked [OF this dr] have "frames (state_of r) = Suc (frames s)" by (simp add: s1_def)
    with out show ?thesis by (cases r) simp_all
  qed
qed

lemma exec_frames: "exec n p s = Some out \<Longrightarrow> frames (state_of out) = frames s"
proof (induction n arbitrary: p s out)
  case 0
  then show ?case by simp
next
  case (Suc n)
  show ?case
  proof (cases p)
    case Return
    with Suc.prems show ?thesis by (auto simp: exec_Suc)
  next
    case Panic
    with Suc.prems show ?thesis by (auto simp: exec_Suc)
  next
    case (Get k)
    with Suc.prems Suc.IH show ?thesis by (auto simp: exec_Suc)
  next
    case (Put w k)
    with Suc.prems have "exec n k (s\<lparr>world := w\<rparr>) = Some out" by (simp add: exec_Suc)
    from Suc.IH [OF this] show ?thesis by simp
  next
    case (CallTriggerEvent ev c v k)
    with Suc.prems obtain r where t: "TriggerEvent n ev c v s = Some r"
      by (auto simp: exec_Suc split: option.splits)
    note f = TriggerEvent_frames [OF t]
    show ?thesis
    proof (cases r)
      case (Normal t')
      with Suc.prems CallTriggerEvent t have "exec n k t' = Some out" by (auto simp: exec_Suc)
      from Suc.IH [OF this] f Normal show ?thesis by simp
    next
      case (Panicked t')
      with Suc.prems CallTriggerEvent t have "out = r" by (auto simp: exec_Suc)
      with f show ?thesis by simp
    qed
  next
    case (CallAddListener ev c f k)
    obtain h s' where a: "AddListener ev c f s = (h, s')" by (cases "AddListener ev c f s")
    with Suc.prems CallAddListener
    have "exec n (k h) (s'\<lparr>history := history s' @ [Issued (id' (cells s' h))]\<rparr>) = Some out"
      by (simp add: exec_Suc)
    from Suc.IH [OF this] AddListener_frame [OF a] show ?thesis by simp
  next
    case (CallRemove h k)
    from Remove_total [of h s] obtain s' where r: "Remove h s = Inr s'" by blast
    with Suc.prems CallRemove
    have "exec n k (s'\<lparr>history := history s' @ [Removed h]\<rparr>) = Some out"
      by (simp add: exec_Suc)
    from Suc.IH [OF this] Remove_frame [OF r] show ?thesis by simp
  next
    case (CallEquals h1 h2 k)
    with Suc.prems Suc.IH show ?thesis by (auto simp: exec_Suc)
  next
    case (CopyListener h k)
    with Suc.prems
    have "exec n (k (next_cell s))
            (s\<lparr>cells := (cells s)(next_cell s := cells s h), next_cell := Suc (next_cell s)\<rparr>) = Some out"
      by (simp add: exec_Suc new_cell_def)
    from Suc.IH [OF this] show ?thesis by simp
  next
    case (Recover p' k)
    with Suc.prems obtain r where r: "exec n p' s = Some r"
      and k: "exec n (k (case r of Normal _ \<Rightarrow> False | Panicked _ \<Rightarrow> True)) (state_of r) = Some out"
      by (auto simp: exec_Suc split: option.splits outcome.splits)
    from Suc.IH [OF r] Suc.IH [OF k] show ?thesis by simp
  qed
qed

subsection \<open>Invariants of the interpreter\<close>

lemma preserved:
  fixes P :: "('cb, 'w) state \<Rightarrow> bool"
  assumes queue: "\<And>s item. P s \<Longrightarrow> lock s \<Longrightarrow>
        P (s\<lparr>triggerQueue := triggerQueue s @ [item], history := history s @ [Raised item]\<rparr>)"
    and enter: "\<And>s item. P s \<Longrightarrow> \<not> lock s \<Longrightarrow>
        P (s\<lparr>triggerQueue := triggerQueue s @ [item], lock := True, frames := Suc (frames s),
            history := history s @ [Raised item, Locked]\<rparr>)"
    and leave: "\<And>s. P s \<Longrightarrow> draining s \<Longrightarrow> triggerQueue s = [] \<Longrightarrow>
        P (s\<lparr>lock := False, frames := frames s - 1, history := history s @ [Unlocked]\<rparr>)"
    and unwind: "\<And>s. P s \<Longrightarrow> draining s \<Longrightarrow>
        P (s\<lparr>frames := frames s - 1, history := history s @ [Unwound]\<rparr>)"
    and pop: "\<And>s item rest. P s \<Longrightarrow> draining s \<Longrightarrow> triggerQueue s = item # rest \<Longrightarrow>
        P (s\<lparr>triggerQueue := rest, history := history s @ [Popped item]\<rparr>)"
    and visit: "\<And>s ev item x. P s \<Longrightarrow> draining s \<Longrightarrow> last_served (history s) = Some item \<Longrightarrow>
        belongs ev item \<Longrightarrow> P (s\<lparr>history := history s @ [Visited ev x]\<rparr>)"
    and put: "\<And>s w. P s \<Longrightarrow> P (s\<lparr>world := w\<rparr>)"
    and add: "\<And>s ev c f h s'. P s \<Longrightarrow> AddListener ev c f s = (h, s') \<Longrightarrow>
        P (s'\<lparr>history := history s' @ [Issued (id' (cells s' h))]\<rparr>)"
    and remove: "\<And>s h s'. P s \<Longrightarrow> Remove h s = Inr s' \<Longrightarrow>
        P (s'\<lparr>history := history s' @ [Removed h]\<rparr>)"
    and copy: "\<And>s h h' s'. P s \<Longrightarrow> new_cell (cells s h) s = (h', s') \<Longrightarrow> P s'"
  shows "preserves n P"
  unfolding preserves_def
proof (induction n)
  case 0
  show ?case by simp
next
  case (Suc n)
  note IH = Suc.IH
  have T: "\<And>ev c v s out. P s \<Longrightarrow> TriggerEvent n ev c v s = Some out \<Longrightarrow> P (state_of out)"
    using IH by simp
  have D: "\<And>s out. P s \<Longrightarrow> draining s \<Longrightarrow> drain n s = Some out \<Longrightarrow> P (state_of out)"
    using IH by simp
  have V: "\<And>item s out. P s \<Longrightarrow> draining s \<Longrightarrow> last_served (history s) = Some item \<Longrightarrow>
         deliver n item s = Some out \<Longrightarrow> P (state_of out)"
    using IH by simp
  have R: "\<And>ev v item s out. P s \<Longrightarrow> draining s \<Longrightarrow> last_served (history s) = Some item \<Longrightarrow>
         belongs ev item \<Longrightarrow> runListeners n ev v s = Some out \<Longrightarrow> P (state_of out)"
    using IH by simp
  have L: "\<And>ev l i v item s out. P s \<Longrightarrow> draining s \<Longrightarrow> last_served (history s) = Some item \<Longrightarrow>
         belongs ev item \<Longrightarrow> range_loop n ev l i v s = Some out \<Longrightarrow> P (state_of out)"
    using IH by simp
  have E: "\<And>p s out. P s \<Longrightarrow> exec n p s = Some out \<Longrightarrow> P (state_of out)"
    using IH by simp
  have keep: "draining t \<and> last_served (history t) = last_served (history s)"
    if "draining s" "held s t" for s t :: "('cb, 'w) state"
    using that by (simp add: draining_def held_def)
  have F1: "P (state_of out)" if "P s" "TriggerEvent (Suc n) ev c v s = Some out" for ev c v s out
  proof -
    define item where "item = \<lparr>triggerQueueItem.event = ev, channel = c, visitor = v\<rparr>"
    show ?thesis
    proof (cases "lock s")
      case True
      with that(2) have "out = Normal (s\<lparr>triggerQueue := triggerQueue s @ [item],
                                          history := history s @ [Raised item]\<rparr>)"
        by (auto simp: TriggerEvent_Suc Let_def item_def)
      with queue [OF that(1) True] show ?thesis by simp
    next
      case False
      define s1 where "s1 = s\<lparr>triggerQueue := triggerQueue s @ [item],
                               lock := True, frames := Suc (frames s),
                               history := history s @ [Raised item, Locked]\<rparr>"
      from enter [OF that(1) False] have P1: "P s1" by (simp add: s1_def)
      have d1: "draining s1" by (simp add: draining_def s1_def)
      from that(2) False obtain r where
        dr: "drain n s1 = Some r"
        and out: "out = (case r of
                    Panicked s2 \<Rightarrow> Panicked (s2\<lparr>frames := frames s2 - 1, history := history s2 @ [Unwound]\<rparr>)
                  | Normal s2 \<Rightarrow> Normal (s2\<lparr>lock := False, frames := frames s2 - 1,
                                            history := history s2 @ [Unlocked]\<rparr>))"
        by (auto simp: TriggerEvent_Suc Let_def s1_def item_def split: option.splits outcome.splits)
      from D [OF P1 d1 dr] have Pr: "P (state_of r)" .
      from drain_locked [OF _ dr] d1 have dr': "draining (state_of r)"
        by (simp add: draining_def)
      show ?thesis
      proof (cases r)
        case (Normal s2)
        with dr have "triggerQueue s2 = []" by (simp add: drain_Normal_empty)
        with Pr dr' Normal out leave [of s2] show ?thesis by simp
      next
        case (Panicked s2)
        with Pr dr' out unwind [of s2] show ?thesis by simp
      qed
    qed
  qed
  have F2: "P (state_of out)" if "P s" "draining s" "drain (Suc n) s = Some out" for s out
  proof (cases "triggerQueue s")
    case Nil
    with that show ?thesis by (auto simp: drain_Suc)
  next
    case (Cons item rest)
    define s1 where "s1 = s\<lparr>triggerQueue := rest, history := history s @ [Popped item]\<rparr>"
    from pop [OF that(1,2) Cons] have P1: "P s1" by (simp add: s1_def)
    have d1: "draining s1" and ls: "last_served (history s1) = Some item"
      using that(2) by (simp_all add: draining_def s1_def)
    from that(3) Cons obtain r where dl: "deliver n item s1 = Some r"
      by (auto simp: drain_Suc s1_def split: option.splits)
    from V [OF P1 d1 ls dl] have Pr: "P (state_of r)" .
    show ?thesis
    proof (cases r)
      case (Normal s')
      with that(3) Cons dl have dn: "drain n s' = Some out" by (auto simp: drain_Suc s1_def)
      from deliver_locked [OF _ dl] d1 Normal have "draining s'"
        by (simp add: draining_def held_def)
      with Pr Normal dn show ?thesis using D by simp
    next
      case (Panicked s')
      with that(3) Cons dl have "out = r" by (auto simp: drain_Suc s1_def)
      with Pr show ?thesis by simp
    qed
  qed
  have F3: "P (state_of out)"
    if "P s" "draining s" "last_served (history s) = Some item" "deliver (Suc n) item s = Some out"
    for item s out
  proof -
    have b1: "belongs (triggerQueueItem.event item) item" by (simp add: belongs_def)
    from that(4) obtain r where
      r1: "runListeners n (triggerQueueItem.event item) (visitor item) s = Some r"
      by (auto simp: deliver_Suc split: option.splits)
    from R [OF that(1,2,3) b1 r1] have Pr: "P (state_of r)" .
    show ?thesis
    proof (cases r)
      case (Panicked s')
      with that(4) r1 have "out = r" by (auto simp: deliver_Suc)
      with Pr show ?thesis by simp
    next
      case (Normal s')
      show ?thesis
      proof (cases "channel item")
        case None
        with that(4) r1 Normal have "out = r" by (auto simp: deliver_Suc)
        with Pr show ?thesis by simp
      next
        case (Some ch)
        let ?key = "triggerQueueItem.event item @ ''#'' @ Name ch"
        from that(4) r1 Normal Some
        have r2: "runListeners n ?key (visitor item) s' = Some out"
          by (auto simp: deliver_Suc)
        have b2: "belongs ?key item" using Some by (simp add: belongs_def fullEventName_def)
        from runListeners_locked [OF _ r1] that(2) Normal have "held s s'"
          by (simp add: draining_def)
        from keep [OF that(2) this] that(3)
        have "draining s'" "last_served (history s') = Some item" by simp_all
        from R [OF _ this b2 r2] Pr Normal show ?thesis by simp
      qed
    qed
  qed
  have F4: "P (state_of out)"
    if "P s" "draining s" "last_served (history s) = Some item" "belongs ev item"
      "runListeners (Suc n) ev v s = Some out" for ev v item s out
  proof (cases "listeners s ev")
    case None
    with that show ?thesis by (auto simp: runListeners_Suc)
  next
    case (Some l)
    with that(5) have "range_loop n ev l 0 v s = Some out" by (simp add: runListeners_Suc)
    from L [OF that(1,2,3,4) this] show ?thesis .
  qed
  have F5: "P (state_of out)"
    if "P s" "draining s" "last_served (history s) = Some item" "belongs ev item"
      "range_loop (Suc n) ev l i v s = Some out" for ev l i v item s out
  proof (cases "i < len l")
    case False
    with that show ?thesis by (auto simp: range_loop_Suc)
  next
    case True
    define x where "x = arrays s (ptr l) ! i"
    define s0 where "s0 = s\<lparr>history := history s @ [Visited ev x]\<rparr>"
    from visit [OF that(1,2,3,4)] have P1: "P s0" by (simp add: s0_def)
    have h0: "held s s0" using that(2) by (simp add: held_def draining_def s0_def)
    from that(5) True obtain r where ex: "exec n (v (callback x)) s0 = Some r"
      by (auto simp: range_loop_Suc Let_def x_def s0_def split: option.splits)
    from E [OF P1 ex] have Pr: "P (state_of r)" .
    show ?thesis
    proof (cases r)
      case (Normal s')
      with that(5) True ex have rl: "range_loop n ev l (Suc i) v s' = Some out"
        by (auto simp: range_loop_Suc Let_def x_def s0_def)
      from h0 have "lock s0" by (simp add: held_def)
      from exec_locked [OF this ex] h0 Normal have "held s s'"
        by (auto intro: held_trans)
      from keep [OF that(2) this] that(3)
      have "draining s'" "last_served (history s') = Some item" by simp_all
      from L [OF _ this that(4) rl] Pr Normal show ?thesis by simp
    next
      case (Panicked s')
      with that(5) True ex have "out = r" by (auto simp: range_loop_Suc Let_def x_def s0_def)
      with Pr show ?thesis by simp
    qed
  qed
  have F6: "P (state_of out)" if "P s" "exec (Suc n) p s = Some out" for p s out
  proof (cases p)
    case Return
    with that show ?thesis by (auto simp: exec_Suc)
  next
    case Panic
    with that show ?thesis by (auto simp: exec_Suc)
  next
    case (Get k)
    with that E show ?thesis by (auto simp: exec_Suc)
  next
    case (Put w k)
    with that(2) have "exec n k (s\<lparr>world := w\<rparr>) = Some out" by (auto simp: exec_Suc)
    with put [OF that(1)] E show ?thesis by blast
  next
    case (CallTriggerEvent ev c v k)
    with that(2) obtain r where t: "TriggerEvent n ev c v s = Some r"
      by (auto simp: exec_Suc split: option.splits)
    from T [OF that(1) t] have Pr: "P (state_of r)" .
    show ?thesis
    proof (cases r)
      case (Normal s')
      with that(2) CallTriggerEvent t have "exec n k s' = Some out" by (auto simp: exec_Suc)
      with Pr Normal show ?thesis using E by simp
    next
      case (Panicked s')
      with that(2) CallTriggerEvent t have "out = r" by (auto simp: exec_Suc)
      with Pr show ?thesis by simp
    qed
  next
    case (CallAddListener ev c f k)
    obtain h s' where a: "AddListener ev c f s = (h, s')" by (cases "AddListener ev c f s")
    with that(2) CallAddListener
    have "exec n (k h) (s'\<lparr>history := history s' @ [Issued (id' (cells s' h))]\<rparr>) = Some out"
      by (auto simp: exec_Suc)
    with add [OF that(1) a] E show ?thesis by blast
  next
    case (CallRemove h k)
    from Remove_total [of h s] obtain s' where r: "Remove h s = Inr s'" by blast
    with that(2) CallRemove
    have "exec n k (s'\<lparr>history := history s' @ [Removed h]\<rparr>) = Some out"
      by (auto simp: exec_Suc)
    with remove [OF that(1) r] E show ?thesis by blast
  next
    case (CallEquals h1 h2 k)
    with that E show ?thesis by (auto simp: exec_Suc)
  next
    case (CopyListener h k)
    obtain h' s' where c: "new_cell (cells s h) s = (h', s')" by (cases "new_cell (cells s h) s")
    with that(2) CopyListener have "exec n (k h') s' = Some out" by (auto simp: exec_Suc)
    with copy [OF that(1) c] E show ?thesis by blast
  next
    case (Recover p' k)
    with that(2) obtain r where e1: "exec n p' s = Some r"
      by (auto simp: exec_Suc split: option.splits)
    from E [OF that(1) e1] have Pr: "P (state_of r)" .
    from that(2) Recover e1 have "exec n (k (case r of Normal _ \<Rightarrow> False | Panicked _ \<Rightarrow> True)) (state_of r) = Some out"
      by (cases r) (simp_all add: exec_Suc)
    with Pr E show ?thesis by blast
  qed
  show ?case
    apply (intro conjI allI impI)
         apply (erule (1) F1)
        apply (erule (2) F2)
       apply (erule (3) F3)
      apply (erule (4) F4)
     apply (erule (4) F5)
    apply (erule (1) F6)
    done
qed

lemma preserves_TriggerEvent:
  assumes "preserves n P" "P s" "TriggerEvent n ev c v s = Some out"
  shows "P (state_of out)"
proof -
  from assms(1)
  have "\<forall>ev c v s out. P s \<longrightarrow> TriggerEvent n ev c v s = Some out \<longrightarrow> P (state_of out)"
    unfolding preserves_def by (elim conjE)
  from this [rule_format, OF assms(2,3)] show ?thesis .
qed

lemma preserves_exec:
  assumes "preserves n P" "P s" "exec n p s = Some out"
  shows "P (state_of out)"
proof -
  from assms(1)
  have "\<forall>p s out. P s \<longrightarrow> exec n p s = Some out \<longrightarrow> P (state_of out)"
    unfolding preserves_def by (elim conjE)
  from this [rule_format, OF assms(2,3)] show ?thesis .
qed

lemma track_Some [simp]:
  "track (Some (d, lk)) Locked = (if d = 0 \<and> \<not> lk then Some (1, True) else None)"
  "track (Some (d, lk)) Unlocked = (if d = 1 \<and> lk then Some (0, False) else None)"
  "track (Some (d, lk)) Unwound = (if d = 1 \<and> lk then Some (0, True) else None)"
  "track (Some (d, lk)) (Popped i) = (if d = 1 \<and> lk then Some (d, lk) else None)"
  "track (Some (d, lk)) (Visited k x) = (if d = 1 \<and> lk then Some (d, lk) else None)"
  "track (Some (d, lk)) (Raised i) = Some (d, lk)"
  "track (Some (d, lk)) (Issued j) = Some (d, lk)"
  "track (Some (d, lk)) (Removed c) = Some (d, lk)"
  by (simp_all add: track_def)

lemma serve_Some [simp]:
  "serve (Some (pending, cur)) (Raised i) = Some (pending @ [i], cur)"
  "serve (Some (j # rest, cur)) (Popped i) = (if i = j then Some (rest, Some i) else None)"
  "serve (Some ([], cur)) (Popped i) = None"
  "serve (Some (pending, Some i')) (Visited k x) =
     (if belongs k i' then Some (pending, Some i') else None)"
  "serve (Some (pending, None)) (Visited k x) = None"
  "serve (Some (pending, cur)) Locked = Some (pending, cur)"
  "serve (Some (pending, cur)) Unlocked = Some (pending, cur)"
  "serve (Some (pending, cur)) Unwound = Some (pending, cur)"
  "serve (Some (pending, cur)) (Issued n) = Some (pending, cur)"
  "serve (Some (pending, cur)) (Removed c) = Some (pending, cur)"
  by (simp_all add: serve_def)

lemma fifo_preserved: "preserves n fifo"
proof (rule preserved)
  fix s :: "('a, 'b) state" and ev c f h s'
  assume "fifo s" "AddListener ev c f s = (h, s')"
  then show "fifo (s'\<lparr>history := history s' @ [Issued (id' (cells s' h))]\<rparr>)"
    by (auto simp: fifo_def dest!: AddListener_frame)
next
  fix s :: "('a, 'b) state" and h s'
  assume "fifo s" "Remove h s = Inr s'"
  then show "fifo (s'\<lparr>history := history s' @ [Removed h]\<rparr>)"
    by (auto simp: fifo_def dest!: Remove_frame)
qed (auto simp: fifo_def new_cell_def)

lemma idle_queue_empty_preserved: "preserves n idle_queue_empty"
proof (rule preserved)
  fix s :: "('a, 'b) state" and ev c f h s'
  assume "idle_queue_empty s" "AddListener ev c f s = (h, s')"
  then show "idle_queue_empty (s'\<lparr>history := history s' @ [Issued (id' (cells s' h))]\<rparr>)"
    by (auto simp: idle_queue_empty_def dest!: AddListener_frame)
next
  fix s :: "('a, 'b) state" and h s'
  assume "idle_queue_empty s" "Remove h s = Inr s'"
  then show "idle_queue_empty (s'\<lparr>history := history s' @ [Removed h]\<rparr>)"
    by (auto simp: idle_queue_empty_def dest!: Remove_frame)
qed (auto simp: idle_queue_empty_def new_cell_def)

lemma ordered_preserved: "preserves n ordered"
proof (rule preserved)
  fix s :: "('a, 'b) state" and ev c f h s'
  assume "ordered s" "AddListener ev c f s = (h, s')"
  then show "ordered (s'\<lparr>history := history s' @ [Issued (id' (cells s' h))]\<rparr>)"
    by (auto simp: ordered_def dest!: AddListener_frame)
next
  fix s :: "('a, 'b) state" and h s'
  assume "ordered s" "Remove h s = Inr s'"
  then show "ordered (s'\<lparr>history := history s' @ [Removed h]\<rparr>)"
    by (auto simp: ordered_def dest!: Remove_frame)
qed (auto simp: ordered_def new_cell_def)

lemma tracked_preserved: "preserves n tracked"
proof (rule preserved)
  fix s :: "('a, 'b) state" and ev c f h s'
  assume "tracked s" "AddListener ev c f s = (h, s')"
  then show "tracked (s'\<lparr>history := history s' @ [Issued (id' (cells s' h))]\<rparr>)"
    by (auto simp: tracked_def dest!: AddListener_frame)
next
  fix s :: "('a, 'b) state" and h s'
  assume "tracked s" "Remove h s = Inr s'"
  then show "tracked (s'\<lparr>history := history s' @ [Removed h]\<rparr>)"
    by (auto simp: tracked_def dest!: Remove_frame)
qed (auto simp: tracked_def draining_def new_cell_def)

lemma NewDispatcher_fifo: "fifo (NewDispatcher g w0)"
  by (simp add: fifo_def NewDispatcher_def)

lemma NewDispatcher_idle: "idle_queue_empty (NewDispatcher g w0)"
  by (simp add: idle_queue_empty_def NewDispatcher_def)

lemma NewDispatcher_ordered: "ordered (NewDispatcher g w0)"
  by (simp add: ordered_def NewDispatcher_def)

lemma NewDispatcher_tracked: "tracked (NewDispatcher g w0)"
  by (simp add: tracked_def NewDispatcher_def)

lemma reachable_idle:
  "exec n p (NewDispatcher g w0) = Some out \<Longrightarrow> \<not> lock (state_of out) \<Longrightarrow>
     triggerQueue (state_of out) = []"
  using preserves_exec [OF idle_queue_empty_preserved NewDispatcher_idle, of n p g w0 out]
  by (simp add: idle_queue_empty_def)

lemma reachable_frames: "exec n p (NewDispatcher g w0) = Some out \<Longrightarrow> frames (state_of out) = 0"
  using exec_frames [of n p "NewDispatcher g w0" out] by (simp add: NewDispatcher_def)

subsection \<open>Top-level triggers\<close>

lemma TriggerEvent_top_level:
  assumes "\<not> lock s" "TriggerEvent n ev c v s = Some (Normal s')"
  shows "triggerQueue s' = [] \<and> \<not> lock s'"
proof (cases n)
  case 0
  with assms show ?thesis by simp
next
  case (Suc m)
  with assms obtain s2 where
    "drain m (s\<lparr>triggerQueue := triggerQueue s @ [\<lparr>triggerQueueItem.event = ev, channel = c, visitor = v\<rparr>],
                lock := True, frames := Suc (frames s),
                history := history s @ [Raised \<lparr>triggerQueueItem.event = ev, channel = c, visitor = v\<rparr>,
                                        Locked]\<rparr>) = Some (Normal s2)"
    and "s' = s2\<lparr>lock := False, frames := frames s2 - 1, history := history s2 @ [Unlocked]\<rparr>"
    by (auto simp: TriggerEvent_Suc Let_def split: option.splits outcome.splits)
  with drain_Normal_empty [OF this(1)] show ?thesis by simp
qed

lemma runListeners_no_listeners:
  "no_listeners s key \<Longrightarrow> runListeners (Suc (Suc n)) key v s = Some (Normal s)"
  by (auto simp: no_listeners_def runListeners_Suc range_loop_Suc split: option.splits)

lemma deliver_no_listeners:
  assumes "no_listeners s (triggerQueueItem.event item)"
    and "no_listeners s (fullEventName (triggerQueueItem.event item) (channel item))"
  shows "deliver (Suc (Suc (Suc n))) item s = Some (Normal s)"
  using assms
  by (cases "channel item")
     (simp_all add: deliver_Suc runListeners_no_listeners fullEventName_def)

lemma drain_no_listeners:
  assumes "triggerQueue t = [item]"
    and "no_listeners t (triggerQueueItem.event item)"
    and "no_listeners t (fullEventName (triggerQueueItem.event item) (channel item))"
  shows "drain (Suc (Suc (Suc (Suc n)))) t =
           Some (Normal (t\<lparr>triggerQueue := [], history := history t @ [Popped item]\<rparr>))"
proof -
  define t2 where "t2 = t\<lparr>triggerQueue := [], history := history t @ [Popped item]\<rparr>"
  have nl: "no_listeners t2 (triggerQueueItem.event item)"
    "no_listeners t2 (fullEventName (triggerQueueItem.event item) (channel item))"
    using assms(2,3) by (simp_all add: no_listeners_def t2_def)
  have dl: "deliver (Suc (Suc (Suc n))) item t2 = Some (Normal t2)"
    by (rule deliver_no_listeners [OF nl])
  have q2: "triggerQueue t2 = []" by (simp add: t2_def)
  have d2: "drain (Suc (Suc (Suc n))) t2 = Some (Normal t2)"
    by (simp add: drain_Suc q2)
  show ?thesis
    by (simp add: drain_Suc [of _ t] assms(1) t2_def [symmetric] dl d2)
qed

lemma TriggerEvent_no_listeners:
  assumes "\<not> lock s" "triggerQueue s = []" "no_listeners s ev" "no_listeners s (fullEventName ev c)"
  shows "\<exists>s'. TriggerEvent (Suc (Suc (Suc (Suc (Suc n))))) ev c v s = Some (Normal s')
            \<and> history s' = history s @
                 [Raised \<lparr>triggerQueueItem.event = ev, channel = c, visitor = v\<rparr>, Locked,
                  Popped \<lparr>triggerQueueItem.event = ev, channel = c, visitor = v\<rparr>, Unlocked]
            \<and> listeners s' = listeners s \<and> arrays s' = arrays s \<and> cells s' = cells s
            \<and> listenerID s' = listenerID s \<and> next_array s' = next_array s
            \<and> next_cell s' = next_cell s \<and> world s' = world s \<and> frames s' = frames s
            \<and> triggerQueue s' = [] \<and> \<not> lock s'"
proof -
  define item where "item = \<lparr>triggerQueueItem.event = ev, channel = c, visitor = v\<rparr>"
  define t where "t = s\<lparr>triggerQueue := triggerQueue s @ [item], lock := True,
                         frames := Suc (frames s), history := history s @ [Raised item, Locked]\<rparr>"
  have q: "triggerQueue t = [item]" using assms(2) by (simp add: t_def)
  have nl: "no_listeners t (triggerQueueItem.event item)"
    "no_listeners t (fullEventName (triggerQueueItem.event item) (channel item))"
    using assms(3,4) by (simp_all add: no_listeners_def t_def item_def)
  note d = drain_no_listeners [OF q nl, of n]
  have "TriggerEvent (Suc (Suc (Suc (Suc (Suc n))))) ev c v s =
          Some (Normal (t\<lparr>triggerQueue := [], history := history t @ [Popped item],
                          lock := False, frames := frames t - 1,
                          history := history t @ [Popped item, Unlocked]\<rparr>))"
    using assms(1) d
    by (simp add: TriggerEvent_Suc [of _ ev c v s] Let_def item_def t_def)
  then show ?thesis
    by (simp add: t_def item_def)
qed

subsection \<open>The registry invariant holds in every reachable state\<close>

lemma append_slice_effect:
  assumes ap: "append_slice l xs s = (l', s')"
    and le: "len l \<le> length (arrays s (ptr l))"
    and al: "ptr l < next_array s"
  shows "elems l' s' = elems l s @ xs"
    and "ptr l' < next_array s'"
    and "len l' \<le> length (arrays s' (ptr l'))"
    and "next_array s \<le> next_array s'"
    and "\<And>p. p < next_array s \<Longrightarrow> p \<noteq> ptr l \<Longrightarrow> arrays s' p = arrays s p"
    and "ptr l' = ptr l \<or> ptr l' = next_array s"
proof -
  let ?a = "arrays s (ptr l)"
  let ?n = "len l + length xs"
  show "elems l' s' = elems l s @ xs"
    using ap le by (auto simp: append_slice_def Let_def elems_def split: if_splits)
  show "ptr l' < next_array s'"
    using ap al by (auto simp: append_slice_def Let_def split: if_splits)
  show "len l' \<le> length (arrays s' (ptr l'))"
    using ap le by (auto simp: append_slice_def Let_def split: if_splits)
  show "next_array s \<le> next_array s'"
    using ap by (auto simp: append_slice_def Let_def split: if_splits)
  show "\<And>p. p < next_array s \<Longrightarrow> p \<noteq> ptr l \<Longrightarrow> arrays s' p = arrays s p"
    using ap by (auto simp: append_slice_def Let_def split: if_splits)
  show "ptr l' = ptr l \<or> ptr l' = next_array s"
    using ap by (auto simp: append_slice_def Let_def split: if_splits)
qed

lemma register_effect:
  assumes b: "bounds_ok s" and sp: "separate s"
    and le: "len l \<le> length (arrays s (ptr l))" and al: "ptr l < next_array s"
    and own: "\<forall>k lk. listeners s k = Some lk \<longrightarrow> k \<noteq> key \<longrightarrow> ptr lk \<noteq> ptr l"
    and reg: "register key l x s = (h, s')"
  shows "h = next_cell s" and "cells s' = (cells s)(h := x)" and "next_cell s' = Suc (next_cell s)"
    and "listenerID s' = listenerID s + 1"
    and "registered s' key = elems l s @ [x]"
    and "\<And>k. k \<noteq> key \<Longrightarrow> listeners s' k = listeners s k \<and> registered s' k = registered s k"
    and "bounds_ok s'" and "separate s'"
    and "lock s' = lock s \<and> triggerQueue s' = triggerQueue s \<and> growslice s' = growslice s
         \<and> world s' = world s \<and> history s' = history s \<and> frames s' = frames s"
    and "next_array s \<le> next_array s'"
    and "\<And>p. p < next_array s \<Longrightarrow> p \<noteq> ptr l \<Longrightarrow> arrays s' p = arrays s p"
proof -
  obtain l' s1 where ap: "append_slice l [x] s = (l', s1)"
    by (cases "append_slice l [x] s")
  note fr = append_slice_frame [OF ap]
  note ef = append_slice_effect [OF ap le al]
  from reg ap have s': "s' = s1\<lparr>listeners := (listeners s1)(key \<mapsto> l'), listenerID := listenerID s1 + 1,
                                cells := (cells s1)(next_cell s1 := x), next_cell := Suc (next_cell s1)\<rparr>"
    and h: "h = next_cell s1"
    by (auto simp: register_def new_cell_def)
  show "h = next_cell s" using h fr by simp
  show "cells s' = (cells s)(h := x)" using s' h fr by simp
  show "next_cell s' = Suc (next_cell s)" using s' fr by simp
  show "listenerID s' = listenerID s + 1" using s' fr by simp
  have arr: "arrays s' = arrays s1" using s' by simp
  have el: "\<And>m. elems m s' = elems m s1" by (simp add: elems_def arr)
  have lk: "listeners s' key = Some l'" using s' by simp
  show "registered s' key = elems l s @ [x]"
    by (simp add: registered_def lk el ef(1))
  have other: "listeners s' k = listeners s k \<and> registered s' k = registered s k" if "k \<noteq> key" for k
  proof (cases "listeners s k")
    case None
    with that s' fr show ?thesis by (simp add: registered_def)
  next
    case (Some lk)
    with b have "ptr lk < next_array s" by (auto simp: bounds_ok_def)
    moreover from own Some that have "ptr lk \<noteq> ptr l" by blast
    ultimately have "arrays s1 (ptr lk) = arrays s (ptr lk)" by (rule ef(5))
    with that s' fr Some show ?thesis by (simp add: registered_def elems_def)
  qed
  then show "\<And>k. k \<noteq> key \<Longrightarrow> listeners s' k = listeners s k \<and> registered s' k = registered s k" .
  have na: "next_array s' = next_array s1" using s' by simp
  show "bounds_ok s'"
    unfolding bounds_ok_def
  proof (intro allI impI)
    fix k m
    assume km: "listeners s' k = Some m"
    show "ptr m < next_array s' \<and> len m \<le> length (arrays s' (ptr m))"
    proof (cases "k = key")
      case True
      with km s' have "m = l'" by simp
      with ef(2,3) na arr show ?thesis by simp
    next
      case False
      with km other have sk: "listeners s k = Some m" by simp
      with b have bm: "ptr m < next_array s" "len m \<le> length (arrays s (ptr m))"
        by (auto simp: bounds_ok_def)
      from own sk False have "ptr m \<noteq> ptr l" by blast
      with bm(1) have "arrays s1 (ptr m) = arrays s (ptr m)" by (rule ef(5))
      with bm ef(4) na arr show ?thesis by simp
    qed
  qed
  show "separate s'"
    unfolding separate_def
  proof (intro allI impI)
    fix k k' m m'
    assume km: "listeners s' k = Some m" and km': "listeners s' k' = Some m'" and pp: "ptr m = ptr m'"
    have diff: False if a: "listeners s' j = Some mj" and nk: "j \<noteq> key" and eq: "ptr mj = ptr l'" for j mj
    proof -
      from a nk other have sj: "listeners s j = Some mj" by simp
      with b have "ptr mj < next_array s" by (auto simp: bounds_ok_def)
      moreover from own sj nk have "ptr mj \<noteq> ptr l" by blast
      ultimately show False using ef(6) eq by auto
    qed
    show "k = k'"
    proof (cases "k = key")
      case True
      with km s' have m: "m = l'" by simp
      show ?thesis
      proof (cases "k' = key")
        case True
        with \<open>k = key\<close> show ?thesis by simp
      next
        case False
        with diff [OF km' False] pp m show ?thesis by simp
      qed
    next
      case False
      show ?thesis
      proof (cases "k' = key")
        case True
        with km' s' have "m' = l'" by simp
        with diff [OF km False] pp show ?thesis by simp
      next
        case k'n: False
        from km False other have "listeners s k = Some m" by simp
        moreover from km' k'n other have "listeners s k' = Some m'" by simp
        ultimately show ?thesis using sp pp by (auto simp: separate_def)
      qed
    qed
  qed
  show "lock s' = lock s \<and> triggerQueue s' = triggerQueue s \<and> growslice s' = growslice s
         \<and> world s' = world s \<and> history s' = history s \<and> frames s' = frames s"
    using s' fr by simp
  show "next_array s \<le> next_array s'" using ef(4) na by simp
  show "\<And>p. p < next_array s \<Longrightarrow> p \<noteq> ptr l \<Longrightarrow> arrays s' p = arrays s p"
    using ef(5) arr by simp
qed

lemma Remove_cases:
  assumes "Remove h s = Inr s'"
  obtains (same) "s' = s"
  | (absent) "s' = s\<lparr>cells := (cells s)(h := (cells s h)\<lparr>dispatcher := False\<rparr>)\<rparr>"
  | (found) l pos where "listeners s (Listener.event (cells s h)) = Some l"
      and "pos < length (elems l s)"
      and "s' = s\<lparr>listeners := (listeners s)(Listener.event (cells s h) \<mapsto>
                     l\<lparr>len := length (elems l s) - 1\<rparr>),
                  arrays := (arrays s)(ptr l :=
                     take pos (arrays s (ptr l)) @ drop (Suc pos) (elems l s) @
                     drop (length (elems l s) - 1) (arrays s (ptr l))),
                  cells := (cells s)(h := (cells s h)\<lparr>dispatcher := False\<rparr>)\<rparr>"
proof (cases "dispatcher (cells s h)")
  case False
  with assms have "s' = s" by (simp add: Remove_detached)
  then show ?thesis by (rule same)
next
  case att: True
  show ?thesis
  proof (cases "listeners s (Listener.event (cells s h))")
    case None
    with att assms show ?thesis by (intro absent) (simp add: Remove_absent)
  next
    case (Some l)
    show ?thesis
    proof (cases "position (\<lambda>listener. Equals (cells s h) listener) (elems l s)")
      case None
      with att Some assms have "s' = s" by (simp add: Remove_def)
      then show ?thesis by (rule same)
    next
      case (Some pos)
      note key = \<open>listeners s (Listener.event (cells s h)) = Some l\<close>
      from position_Some [OF Some] have lt: "pos < length (elems l s)" by simp
      from Remove_found [OF att key Some] assms
      show ?thesis by (intro found [OF key lt]) simp
    qed
  qed
qed

lemma Remove_effect:
  assumes b: "bounds_ok s" and sp: "separate s" and rm: "Remove h s = Inr s'"
  shows "bounds_ok s'" and "separate s'"
    and "\<And>k. set (registered s' k) \<subseteq> set (registered s k)"
    and "\<And>k. k \<noteq> Listener.event (cells s h) \<Longrightarrow> registered s' k = registered s k"
proof -
  from rm have "bounds_ok s' \<and> separate s' \<and> (\<forall>k. set (registered s' k) \<subseteq> set (registered s k))
      \<and> (\<forall>k. k \<noteq> Listener.event (cells s h) \<longrightarrow> registered s' k = registered s k)"
  proof (cases rule: Remove_cases)
    case same
    with b sp show ?thesis by simp
  next
    case absent
    with b sp show ?thesis
      by (simp add: bounds_ok_def separate_def registered_def elems_def split: option.splits)
  next
    case (found l pos)
    let ?key = "Listener.event (cells s h)"
    let ?a = "arrays s (ptr l)"
    let ?n = "length (elems l s)"
    let ?a' = "take pos ?a @ drop (Suc pos) (elems l s) @ drop (?n - 1) ?a"
    from found(2) have n: "?n \<le> length ?a" "pos < ?n" "?n \<le> len l"
      by (simp_all add: elems_def)
    have la: "length ?a' = length ?a" using n by simp
    define xs where "xs = elems l s"
    have ls: "listeners s' = (listeners s)(?key \<mapsto> l\<lparr>len := ?n - 1\<rparr>)"
      and ar: "arrays s' = (arrays s)(ptr l := ?a')" and na: "next_array s' = next_array s"
      using found(3) by simp_all
    have "take (length xs) ?a = xs"
      by (cases "len l \<le> length ?a") (simp_all add: xs_def elems_def min_def)
    moreover have "length xs \<le> length ?a" "pos < length xs"
      using n by (simp_all add: xs_def)
    ultimately have xs: "take (length xs) ?a = xs" "length xs \<le> length ?a" "pos < length xs" .
    have "take pos ?a = take pos (take (length xs) ?a)" using xs(3) by (simp add: min_def)
    then have tk: "take pos ?a = take pos xs" by (simp only: xs(1))
    have lsk: "listeners s' ?key = Some (l\<lparr>len := length xs - 1\<rparr>)"
      by (simp add: ls xs_def)
    have ark: "arrays s' (ptr l) = take pos xs @ drop (Suc pos) xs @ drop (length xs - 1) ?a"
      by (simp add: ar tk xs_def)
    have "registered s' ?key = take (length xs - 1) (arrays s' (ptr l))"
      by (simp add: registered_def lsk elems_def)
    also have "\<dots> = take pos xs @ drop (Suc pos) xs"
      using xs(3) by (simp add: ark)
    finally have rk: "registered s' ?key = take pos (elems l s) @ drop (Suc pos) (elems l s)"
      by (simp add: xs_def)
    have other: "listeners s' k = listeners s k \<and> registered s' k = registered s k" if "k \<noteq> ?key" for k
    proof (cases "listeners s k")
      case None
      with that ls show ?thesis by (simp add: registered_def)
    next
      case (Some lk)
      with sp found(1) that have "ptr lk \<noteq> ptr l" by (auto simp: separate_def)
      with that ls ar Some show ?thesis by (simp add: registered_def elems_def)
    qed
    have "bounds_ok s'"
      unfolding bounds_ok_def
    proof (intro allI impI)
      fix k m assume km: "listeners s' k = Some m"
      show "ptr m < next_array s' \<and> len m \<le> length (arrays s' (ptr m))"
      proof (cases "k = ?key")
        case True
        with km ls have "m = l\<lparr>len := ?n - 1\<rparr>" by simp
        moreover from b found(1) have "ptr l < next_array s" by (auto simp: bounds_ok_def)
        ultimately show ?thesis using na ar la n by simp
      next
        case False
        with km other have sk: "listeners s k = Some m" by simp
        with b have "ptr m < next_array s" "len m \<le> length (arrays s (ptr m))"
          by (auto simp: bounds_ok_def)
        moreover from sp found(1) sk False have "ptr m \<noteq> ptr l" by (auto simp: separate_def)
        ultimately show ?thesis using na ar by simp
      qed
    qed
    moreover have "separate s'"
      unfolding separate_def
    proof (intro allI impI)
      fix k k' m m'
      assume km: "listeners s' k = Some m" and km': "listeners s' k' = Some m'" and pp: "ptr m = ptr m'"
      have old: "\<exists>mo. listeners s j = Some mo \<and> ptr mo = ptr mj" if "listeners s' j = Some mj" for j mj
        using that ls found(1) by (cases "j = ?key") auto
      from old [OF km] old [OF km'] pp sp show "k = k'"
        by (auto simp: separate_def)
    qed
    moreover have "set (registered s' k) \<subseteq> set (registered s k)" for k
    proof (cases "k = ?key")
      case True
      have "set (take pos (elems l s) @ drop (Suc pos) (elems l s)) \<subseteq> set (elems l s)"
        by (auto dest: in_set_takeD in_set_dropD)
      with True rk found(1) show ?thesis by (simp add: registered_def)
    next
      case False
      with other show ?thesis by simp
    qed
    ultimately show ?thesis using other by blast
  qed
  then show "bounds_ok s'" and "separate s'"
    and "\<And>k. set (registered s' k) \<subseteq> set (registered s k)"
    and "\<And>k. k \<noteq> Listener.event (cells s h) \<Longrightarrow> registered s' k = registered s k"
    by simp_all
qed

lemma AddListener_effect:
  assumes b: "bounds_ok s" and sp: "separate s"
    and fresh: "\<forall>y\<in>set (registered s (fullEventName ev c)). id' y \<noteq> listenerID s"
    and add: "AddListener ev c f s = (h, s')"
  defines "key \<equiv> fullEventName ev c"
  defines "x \<equiv> \<lparr>dispatcher = True, callback = f, Listener.event = fullEventName ev c, id' = listenerID s\<rparr>"
  shows "h = next_cell s" and "cells s' = (cells s)(h := x)" and "next_cell s' = Suc (next_cell s)"
    and "listenerID s' = listenerID s + 1"
    and "registered s' key = registered s key @ [x]"
    and "\<And>k. k \<noteq> key \<Longrightarrow> listeners s' k = listeners s k \<and> registered s' k = registered s k"
    and "bounds_ok s'" and "separate s'"
    and "lock s' = lock s \<and> triggerQueue s' = triggerQueue s \<and> growslice s' = growslice s
         \<and> world s' = world s \<and> history s' = history s \<and> frames s' = frames s"
proof -
  have all: "h = next_cell s \<and> cells s' = (cells s)(h := x) \<and> next_cell s' = Suc (next_cell s)
    \<and> listenerID s' = listenerID s + 1
    \<and> registered s' key = registered s key @ [x]
    \<and> (\<forall>k. k \<noteq> key \<longrightarrow> listeners s' k = listeners s k \<and> registered s' k = registered s k)
    \<and> bounds_ok s' \<and> separate s'
    \<and> (lock s' = lock s \<and> triggerQueue s' = triggerQueue s \<and> growslice s' = growslice s
         \<and> world s' = world s \<and> history s' = history s \<and> frames s' = frames s)"
  proof (cases "listeners s key")
    case None
    define l0 where "l0 = \<lparr>ptr = next_array s, len = 0\<rparr>"
    define s0 where "s0 = s\<lparr>arrays := (arrays s)(next_array s := []), next_array := Suc (next_array s)\<rparr>"
    have mk: "make_slice s = (l0, s0)" by (simp add: make_slice_def l0_def s0_def)
    from add None mk have reg: "register key l0 x s0 = (h, s')"
      by (simp add: AddListener_def Let_def key_def x_def)
    have same: "registered s0 k = registered s k" for k
    proof (cases "listeners s k")
      case None
      then show ?thesis by (simp add: registered_def s0_def)
    next
      case (Some lk)
      with b have "ptr lk < next_array s" by (auto simp: bounds_ok_def)
      with Some show ?thesis by (simp add: registered_def s0_def elems_def)
    qed
    have b0: "bounds_ok s0"
      using b by (fastforce simp: bounds_ok_def s0_def)
    have sp0: "separate s0"
      using sp by (simp add: separate_def s0_def)
    have le0: "len l0 \<le> length (arrays s0 (ptr l0))" by (simp add: l0_def s0_def)
    have al0: "ptr l0 < next_array s0" by (simp add: l0_def s0_def)
    have own0: "\<forall>k lk. listeners s0 k = Some lk \<longrightarrow> k \<noteq> key \<longrightarrow> ptr lk \<noteq> ptr l0"
      using b by (fastforce simp: bounds_ok_def s0_def l0_def)
    note r = register_effect [OF b0 sp0 le0 al0 own0 reg]
    have e0: "elems l0 s0 = []" by (simp add: elems_def l0_def)
    have rk: "registered s key = []" using None by (simp add: registered_def)
    have ls0: "listeners s0 = listeners s" by (simp add: s0_def)
    have fr0: "next_cell s0 = next_cell s" "cells s0 = cells s" "listenerID s0 = listenerID s"
      "lock s0 = lock s" "triggerQueue s0 = triggerQueue s" "growslice s0 = growslice s"
      "world s0 = world s" "history s0 = history s" "frames s0 = frames s"
      by (simp_all add: s0_def)
    from r(1-5) r(7-9) r(6) show ?thesis
      by (simp add: e0 rk same ls0 fr0)
  next
    case (Some l)
    from fresh Some have "\<forall>y\<in>set (elems l s). id' y \<noteq> listenerID s"
      by (simp add: registered_def key_def)
    then have "find (\<lambda>i. Equals i x) (elems l s) = None"
      by (simp add: find_None_iff Equals_def x_def)
    with add Some have reg: "register key l x s = (h, s')"
      by (simp add: AddListener_def Let_def key_def x_def)
    from b Some have le: "len l \<le> length (arrays s (ptr l))" and al: "ptr l < next_array s"
      by (auto simp: bounds_ok_def)
    from sp Some have own: "\<forall>k lk. listeners s k = Some lk \<longrightarrow> k \<noteq> key \<longrightarrow> ptr lk \<noteq> ptr l"
      by (auto simp: separate_def)
    note r = register_effect [OF b sp le al own reg]
    have rk: "registered s key = elems l s" using Some by (simp add: registered_def)
    from r(1-5) r(7-9) r(6) show ?thesis
      by (simp add: rk)
  qed
  from all show "h = next_cell s" and "cells s' = (cells s)(h := x)" and "next_cell s' = Suc (next_cell s)"
    and "listenerID s' = listenerID s + 1"
    and "registered s' key = registered s key @ [x]"
    and "\<And>k. k \<noteq> key \<Longrightarrow> listeners s' k = listeners s k \<and> registered s' k = registered s k"
    and "bounds_ok s'" and "separate s'"
    and "lock s' = lock s \<and> triggerQueue s' = triggerQueue s \<and> growslice s' = growslice s
         \<and> world s' = world s \<and> history s' = history s \<and> frames s' = frames s"
    by simp_all
qed

text \<open>When an element of the list has the id of the counter, the call returns a copy of it.\<close>

lemma AddListener_duplicate:
  assumes "\<exists>y\<in>set (registered s (fullEventName ev c)). id' y = listenerID s"
  shows "\<exists>i\<in>set (registered s (fullEventName ev c)).
           id' i = listenerID s \<and> AddListener ev c f s = new_cell i s"
proof -
  let ?x = "\<lparr>dispatcher = True, callback = f, Listener.event = fullEventName ev c, id' = listenerID s\<rparr>"
  from assms obtain l where l: "listeners s (fullEventName ev c) = Some l"
    by (cases "listeners s (fullEventName ev c)") (auto simp: registered_def)
  then have r: "registered s (fullEventName ev c) = elems l s" by (simp add: registered_def)
  from assms r have "\<exists>y\<in>set (elems l s). Equals y ?x" by (simp add: Equals_def)
  then obtain i where i: "find (\<lambda>i. Equals i ?x) (elems l s) = Some i"
    by (cases "find (\<lambda>i. Equals i ?x) (elems l s)") (auto simp: find_None_iff)
  then have "i \<in> set (elems l s)" "Equals i ?x"
    by (auto simp: find_Some_iff)
  moreover from l i have "AddListener ev c f s = new_cell i s"
    by (simp add: AddListener_def Let_def)
  ultimately show ?thesis using r by (auto simp: Equals_def)
qed

text \<open>In both cases the registry keeps its invariant and the listeners it had.\<close>

lemma registered_cong:
  "listeners s' = listeners s \<Longrightarrow> arrays s' = arrays s \<Longrightarrow> registered s' k = registered s k"
  by (simp add: registered_def elems_def split: option.splits)

lemma sound_cong:
  assumes "sound s" and "listeners s' = listeners s" and "arrays s' = arrays s"
    and "next_array s' = next_array s"
  shows "sound s'"
  using assms
  by (simp add: sound_def bounds_ok_def separate_def keyed_def registered_cong [OF assms(2,3)])

lemma AddListener_sound:
  assumes so: "sound s" and add: "AddListener ev c f s = (h, s')"
  shows "sound s'"
    and "\<And>k. set (registered s k) \<subseteq> set (registered s' k)"
    and "lock s' = lock s \<and> triggerQueue s' = triggerQueue s \<and> history s' = history s"
proof -
  from so have b: "bounds_ok s" and sp: "separate s" and ky: "keyed s"
    by (simp_all add: sound_def)
  let ?key = "fullEventName ev c"
  have "sound s' \<and> (\<forall>k. set (registered s k) \<subseteq> set (registered s' k))"
  proof (cases "\<exists>y\<in>set (registered s ?key). id' y = listenerID s")
    case True
    from AddListener_duplicate [OF True, of f] add obtain i where "new_cell i s = (h, s')"
      by auto
    then have "listeners s' = listeners s" "arrays s' = arrays s" "next_array s' = next_array s"
      by (auto simp: new_cell_def)
    with sound_cong [OF so this] registered_cong [OF this(1,2)] show ?thesis by simp
  next
    case False
    then have fresh: "\<forall>y\<in>set (registered s ?key). id' y \<noteq> listenerID s" by simp
    note e = AddListener_effect [OF b sp fresh add]
    have "keyed s'"
      unfolding keyed_def
    proof (intro allI ballI)
      fix k y assume y: "y \<in> set (registered s' k)"
      show "Listener.event y = k"
      proof (cases "k = ?key")
        case True
        with y e(5) have "y \<in> set (registered s ?key) \<or> Listener.event y = ?key" by auto
        with ky True show ?thesis by (auto simp: keyed_def)
      next
        case False
        with y e(6) ky show ?thesis by (auto simp: keyed_def)
      qed
    qed
    moreover have "set (registered s k) \<subseteq> set (registered s' k)" for k
      using e(5) e(6) [of k] by (cases "k = ?key") auto
    ultimately show ?thesis using e(7,8) by (simp add: sound_def)
  qed
  then show "sound s'" and "\<And>k. set (registered s k) \<subseteq> set (registered s' k)" by auto
  from AddListener_frame [OF add]
  show "lock s' = lock s \<and> triggerQueue s' = triggerQueue s \<and> history s' = history s" by simp
qed

lemma Remove_sound:
  assumes so: "sound s" and rm: "Remove h s = Inr s'"
  shows "sound s'"
proof -
  from so have b: "bounds_ok s" and sp: "separate s" and ky: "keyed s"
    by (simp_all add: sound_def)
  note e = Remove_effect [OF b sp rm]
  have "keyed s'"
    using ky e(3) by (fastforce simp: keyed_def)
  then show ?thesis using e(1,2) by (simp add: sound_def)
qed

lemma sound_preserved: "preserves n sound"
proof (rule preserved)
  fix s :: "('a, 'b) state" and ev c f h s'
  assume "sound s" "AddListener ev c f s = (h, s')"
  from AddListener_sound(1) [OF this]
  show "sound (s'\<lparr>history := history s' @ [Issued (id' (cells s' h))]\<rparr>)"
    by (rule sound_cong) simp_all
next
  fix s :: "('a, 'b) state" and h s'
  assume "sound s" "Remove h s = Inr s'"
  from Remove_sound [OF this]
  show "sound (s'\<lparr>history := history s' @ [Removed h]\<rparr>)"
    by (rule sound_cong) simp_all
next
  fix s :: "('a, 'b) state" and h h' s'
  assume "sound s" "new_cell (cells s h) s = (h', s')"
  then show "sound s'" by (auto simp: new_cell_def elim: sound_cong)
qed (erule sound_cong; simp)+

lemma NewDispatcher_sound: "sound (NewDispatcher g w0)"
  by (simp add: sound_def bounds_ok_def separate_def keyed_def registered_def NewDispatcher_def)

lemma reachable_sound:
  "exec n p (NewDispatcher g w0) = Some out \<Longrightarrow> sound (state_of out)"
  by (rule preserves_exec [OF sound_preserved NewDispatcher_sound])

subsection \<open>The ids until the counter wraps around\<close>

lemma go_int_distinct:
  "j < n \<Longrightarrow> n < 2 ^ 64 \<Longrightarrow> (of_nat j :: go_int) \<noteq> of_nat n"
  by (simp add: word_of_nat_eq_iff take_bit_nat_eq_self)

lemma go_int_value: "n < 2 ^ 63 \<Longrightarrow> sint (of_nat n :: go_int) = int n"
  by (simp add: sint_uint signed_take_bit_int_eq_self take_bit_nat_eq_self unsigned_of_nat)

lemma numbered_cong:
  assumes "numbered s" and "listeners s' = listeners s" and "arrays s' = arrays s"
    and "listenerID s' = listenerID s" and "issued (history s') = issued (history s)"
  shows "numbered s'"
  using assms by (simp add: numbered_def registered_cong [OF assms(2,3)])

lemma counted_cong:
  assumes "counted s" and "listeners s' = listeners s" and "arrays s' = arrays s"
    and "listenerID s' = listenerID s" and "issued (history s') = issued (history s)"
  shows "counted s'"
  using assms numbered_cong [OF _ assms(2-5)] by (simp add: counted_def)

lemma numbered_fresh:
  assumes "numbered s" and "length (issued (history s)) < 2 ^ 64"
  shows "\<forall>y\<in>set (registered s k). id' y \<noteq> listenerID s"
proof
  fix y assume "y \<in> set (registered s k)"
  with assms(1) obtain j where "j < length (issued (history s))" "id' y = of_nat j"
    by (auto simp: numbered_def)
  with assms show "id' y \<noteq> listenerID s"
    by (simp add: numbered_def go_int_distinct)
qed

lemma AddListener_numbered:
  assumes so: "sound s" and nu: "numbered s" and lt: "length (issued (history s)) < 2 ^ 64"
    and add: "AddListener ev c f s = (h, s')"
  shows "numbered (s'\<lparr>history := history s' @ [Issued (id' (cells s' h))]\<rparr>)"
proof -
  from so have b: "bounds_ok s" and sp: "separate s" by (simp_all add: sound_def)
  let ?key = "fullEventName ev c"
  let ?n = "length (issued (history s))"
  let ?t = "s'\<lparr>history := history s' @ [Issued (id' (cells s' h))]\<rparr>"
  note e = AddListener_effect [OF b sp numbered_fresh [OF nu lt] add]
  from nu have id: "listenerID s = of_nat ?n" and iss: "issued (history s) = map of_nat [0..<?n]"
    and old: "\<And>k y. y \<in> set (registered s k) \<Longrightarrow> \<exists>j<?n. id' y = of_nat j"
    by (auto simp: numbered_def)
  have c: "id' (cells s' h) = of_nat ?n" using e(2) id by simp
  have hs: "history s' = history s" using e(9) by simp
  have len: "length (issued (history ?t)) = Suc ?n" by (simp add: hs)
  have cong: "registered ?t k = registered s' k" for k
    by (rule registered_cong) simp_all
  have "listenerID ?t = of_nat (Suc ?n)" using e(4) id by simp
  moreover have "issued (history ?t) = map of_nat [0..<Suc ?n]"
    using iss by (simp add: hs c)
  moreover have "\<exists>j<Suc ?n. id' y = of_nat j" if y: "y \<in> set (registered ?t k)" for k y
  proof (cases "k = ?key")
    case True
    with y e(5) cong have "y \<in> set (registered s ?key) \<or> id' y = listenerID s" by auto
    then show ?thesis
    proof
      assume "y \<in> set (registered s ?key)"
      from old [OF this] show ?thesis by (auto intro: less_SucI)
    next
      assume "id' y = listenerID s"
      with id show ?thesis by auto
    qed
  next
    case False
    with y e(6) cong have "y \<in> set (registered s k)" by simp
    from old [OF this] show ?thesis by (auto intro: less_SucI)
  qed
  ultimately show ?thesis unfolding numbered_def len by blast
qed

lemma Remove_numbered:
  assumes so: "sound s" and nu: "numbered s" and rm: "Remove h s = Inr s'"
  shows "numbered (s'\<lparr>history := history s' @ [Removed h]\<rparr>)"
proof -
  from so have b: "bounds_ok s" and sp: "separate s" by (simp_all add: sound_def)
  note e = Remove_effect [OF b sp rm]
  note fr = Remove_frame [OF rm]
  let ?t = "s'\<lparr>history := history s' @ [Removed h]\<rparr>"
  have cong: "registered ?t k = registered s' k" for k
    by (rule registered_cong) simp_all
  have "\<exists>j<length (issued (history s)). id' y = of_nat j" if "y \<in> set (registered ?t k)" for k y
    using that e(3) [of k] nu cong by (auto simp: numbered_def)
  with nu fr show ?thesis by (simp add: numbered_def)
qed

lemma sound_counted_preserved: "preserves n (\<lambda>s. sound s \<and> counted s)"
proof (rule preserved)
  fix s :: "('a, 'b) state" and ev c f h s'
  assume a: "sound s \<and> counted s" "AddListener ev c f s = (h, s')"
  let ?t = "s'\<lparr>history := history s' @ [Issued (id' (cells s' h))]\<rparr>"
  from a have so: "sound s" and co: "counted s" by simp_all
  note f = AddListener_sound [OF so a(2)]
  have "sound ?t" by (rule sound_cong [OF f(1)]) simp_all
  moreover have "counted ?t"
    unfolding counted_def
  proof
    assume "length (issued (history ?t)) \<le> 2 ^ 64"
    with f(3) have lt: "length (issued (history s)) < 2 ^ 64" by simp
    with co have "numbered s" by (simp add: counted_def)
    from AddListener_numbered [OF so this lt a(2)] show "numbered ?t" .
  qed
  ultimately show "sound ?t \<and> counted ?t" ..
next
  fix s :: "('a, 'b) state" and h s'
  assume a: "sound s \<and> counted s" "Remove h s = Inr s'"
  let ?t = "s'\<lparr>history := history s' @ [Removed h]\<rparr>"
  from a have so: "sound s" and co: "counted s" by simp_all
  have "sound ?t" by (rule sound_cong [OF Remove_sound [OF so a(2)]]) simp_all
  moreover have "counted ?t"
    unfolding counted_def
  proof
    assume "length (issued (history ?t)) \<le> 2 ^ 64"
    with Remove_frame [OF a(2)] co have "numbered s" by (simp add: counted_def)
    from Remove_numbered [OF so this a(2)] show "numbered ?t" .
  qed
  ultimately show "sound ?t \<and> counted ?t" ..
next
  fix s :: "('a, 'b) state" and h h' s'
  assume "sound s \<and> counted s" "new_cell (cells s h) s = (h', s')"
  then show "sound s' \<and> counted s'"
    by (auto simp: new_cell_def elim: sound_cong counted_cong)
qed (auto elim: sound_cong counted_cong)

lemma NewDispatcher_counted: "counted (NewDispatcher g w0)"
  by (simp add: counted_def numbered_def registered_def NewDispatcher_def)

lemma reachable_numbered:
  assumes "exec n p (NewDispatcher g w0) = Some out"
    and "length (issued (history (state_of out))) \<le> 2 ^ 64"
  shows "numbered (state_of out)"
proof -
  have "sound (NewDispatcher g w0) \<and> counted (NewDispatcher g w0)"
    by (simp add: NewDispatcher_sound NewDispatcher_counted)
  from preserves_exec [OF sound_counted_preserved this assms(1)]
  have "counted (state_of out)" by simp
  with assms(2) show ?thesis unfolding counted_def by blast
qed

subsection \<open>More fuel does not change a result\<close>

lemma more_fuel_all: "more_fuel n (T :: ('cb, 'w) state itself)"
proof (induction n)
  case 0
  show ?case by (simp add: more_fuel_def)
next
  case (Suc n)
  have T: "\<And>ev c v (s :: ('cb, 'w) state). TriggerEvent n ev c v s \<noteq> None \<Longrightarrow>
         TriggerEvent (Suc n) ev c v s = TriggerEvent n ev c v s"
    using Suc.IH by (simp add: more_fuel_def)
  have D: "\<And>(s :: ('cb, 'w) state). drain n s \<noteq> None \<Longrightarrow> drain (Suc n) s = drain n s"
    using Suc.IH by (simp add: more_fuel_def)
  have V: "\<And>item (s :: ('cb, 'w) state). deliver n item s \<noteq> None \<Longrightarrow>
         deliver (Suc n) item s = deliver n item s"
    using Suc.IH by (simp add: more_fuel_def)
  have R: "\<And>ev v (s :: ('cb, 'w) state). runListeners n ev v s \<noteq> None \<Longrightarrow>
         runListeners (Suc n) ev v s = runListeners n ev v s"
    using Suc.IH by (simp add: more_fuel_def)
  have L: "\<And>ev l i v (s :: ('cb, 'w) state). range_loop n ev l i v s \<noteq> None \<Longrightarrow>
         range_loop (Suc n) ev l i v s = range_loop n ev l i v s"
    using Suc.IH by (simp add: more_fuel_def)
  have E: "\<And>p (s :: ('cb, 'w) state). exec n p s \<noteq> None \<Longrightarrow> exec (Suc n) p s = exec n p s"
    using Suc.IH by (simp add: more_fuel_def)
  have F1: "TriggerEvent (Suc (Suc n)) ev c v s = TriggerEvent (Suc n) ev c v s"
    if "TriggerEvent (Suc n) ev c v s \<noteq> None" for ev c v and s :: "('cb, 'w) state"
    using that
    by (simp add: TriggerEvent_Suc [of "Suc n" ev c v s] TriggerEvent_Suc [of n ev c v s] Let_def D
        split: if_splits option.splits)
  have F2: "drain (Suc (Suc n)) s = drain (Suc n) s"
    if "drain (Suc n) s \<noteq> None" for s :: "('cb, 'w) state"
    using that
    by (simp add: drain_Suc [of "Suc n" s] drain_Suc [of n s] V D
        split: list.splits option.splits outcome.splits)
  have F3: "deliver (Suc (Suc n)) item s = deliver (Suc n) item s"
    if "deliver (Suc n) item s \<noteq> None" for item and s :: "('cb, 'w) state"
    using that
    by (simp add: deliver_Suc [of "Suc n" item s] deliver_Suc [of n item s] R
        split: option.splits outcome.splits)
  have F4: "runListeners (Suc (Suc n)) ev v s = runListeners (Suc n) ev v s"
    if "runListeners (Suc n) ev v s \<noteq> None" for ev v and s :: "('cb, 'w) state"
    using that
    by (simp add: runListeners_Suc [of "Suc n" ev v s] runListeners_Suc [of n ev v s] L
        split: option.splits)
  have F5: "range_loop (Suc (Suc n)) ev l i v s = range_loop (Suc n) ev l i v s"
    if "range_loop (Suc n) ev l i v s \<noteq> None" for ev l i v and s :: "('cb, 'w) state"
    using that
    by (simp add: range_loop_Suc [of "Suc n" ev l i v s] range_loop_Suc [of n ev l i v s] Let_def E L
        split: if_splits option.splits outcome.splits)
  have F6: "exec (Suc (Suc n)) p s = exec (Suc n) p s"
    if "exec (Suc n) p s \<noteq> None" for p and s :: "('cb, 'w) state"
    using that
    by (simp add: exec_Suc [of "Suc n" p s] exec_Suc [of n p s] T E
         split: prog.splits option.splits outcome.splits sum.splits prod.splits)
  show ?case
    unfolding more_fuel_def
    apply (intro conjI allI impI)
         apply (erule F1)
        apply (erule F2)
       apply (erule F3)
      apply (erule F4)
     apply (erule F5)
    apply (erule F6)
    done
qed

lemma exec_more_fuel: "exec n p s = Some r \<Longrightarrow> n \<le> m \<Longrightarrow> exec m p s = Some r"
proof (induction m)
  case 0
  then show ?case by simp
next
  case (Suc m)
  show ?case
  proof (cases "n = Suc m")
    case True
    with Suc.prems show ?thesis by simp
  next
    case False
    with Suc have "exec m p s = Some r" by simp
    moreover have "more_fuel m TYPE(('a, 'b) state)" by (rule more_fuel_all)
    ultimately show ?thesis by (simp add: more_fuel_def)
  qed
qed

lemma range_loop_more_fuel:
  "range_loop n ev l i v s = Some r \<Longrightarrow> n \<le> m \<Longrightarrow> range_loop m ev l i v s = Some r"
proof (induction m)
  case 0
  then show ?case by simp
next
  case (Suc m)
  show ?case
  proof (cases "n = Suc m")
    case True
    with Suc.prems show ?thesis by simp
  next
    case False
    with Suc have "range_loop m ev l i v s = Some r" by simp
    moreover have "more_fuel m TYPE(('a, 'b) state)" by (rule more_fuel_all)
    ultimately show ?thesis by (simp add: more_fuel_def)
  qed
qed

lemma runListeners_more_fuel:
  "runListeners n ev v s = Some r \<Longrightarrow> n \<le> m \<Longrightarrow> runListeners m ev v s = Some r"
proof (induction m)
  case 0
  then show ?case by simp
next
  case (Suc m)
  show ?case
  proof (cases "n = Suc m")
    case True
    with Suc.prems show ?thesis by simp
  next
    case False
    with Suc have "runListeners m ev v s = Some r" by simp
    moreover have "more_fuel m TYPE(('a, 'b) state)" by (rule more_fuel_all)
    ultimately show ?thesis by (simp add: more_fuel_def)
  qed
qed

subsection \<open>A delivery during which no callback calls AddListener or Remove\<close>

lemma undisturbed_refl [simp]: "undisturbed s s"
  by (simp add: undisturbed_def)

lemma calm_refl [simp]: "calm s s"
  by (simp add: calm_def)

lemma calm_trans: "calm s t \<Longrightarrow> calm t u \<Longrightarrow> calm s u"
  by (auto simp: calm_def undisturbed_def)

lemma exec_calm: "lock s \<Longrightarrow> exec n p s = Some out \<Longrightarrow> calm s (state_of out)"
proof (induction n arbitrary: p s out)
  case 0
  then show ?case by simp
next
  case (Suc n)
  note lk = Suc.prems(1)
  have step: "calm s (state_of out)" if "calm s t" "lock t" "exec n q t = Some out" for t q
    using Suc.IH [OF that(2,3)] that(1) by (rule calm_trans [rotated])
  show ?case
  proof (cases p)
    case Return
    with Suc.prems show ?thesis by (auto simp: exec_Suc)
  next
    case Panic
    with Suc.prems show ?thesis by (auto simp: exec_Suc)
  next
    case (Get k)
    with Suc.prems have "exec n (k (world s)) s = Some out" by (simp add: exec_Suc)
    with calm_refl lk show ?thesis by (rule step)
  next
    case (Put w k)
    with Suc.prems have "exec n k (s\<lparr>world := w\<rparr>) = Some out" by (simp add: exec_Suc)
    moreover have "calm s (s\<lparr>world := w\<rparr>)" by (simp add: calm_def undisturbed_def)
    ultimately show ?thesis using step lk by simp
  next
    case (CallTriggerEvent ev c v k)
    define s1 where "s1 = s\<lparr>triggerQueue := triggerQueue s @ [\<lparr>triggerQueueItem.event = ev, channel = c, visitor = v\<rparr>],
                     history := history s @ [Raised \<lparr>triggerQueueItem.event = ev, channel = c, visitor = v\<rparr>]\<rparr>"
    from Suc.prems CallTriggerEvent obtain m where m: "n = Suc m"
      by (cases n) (auto simp: exec_Suc)
    with lk have "TriggerEvent n ev c v s = Some (Normal s1)"
      by (simp add: TriggerEvent_locked s1_def)
    with Suc.prems CallTriggerEvent have "exec n k s1 = Some out" by (simp add: exec_Suc)
    moreover have "calm s s1" "lock s1" using lk by (simp_all add: calm_def undisturbed_def s1_def)
    ultimately show ?thesis using step by blast
  next
    case (CallAddListener ev c f k)
    obtain h s' where a: "AddListener ev c f s = (h, s')" by (cases "AddListener ev c f s")
    let ?t = "s'\<lparr>history := history s' @ [Issued (id' (cells s' h))]\<rparr>"
    from a Suc.prems CallAddListener have "exec n (k h) ?t = Some out"
      by (simp add: exec_Suc)
    moreover have "calm s ?t" "lock ?t"
      using lk AddListener_frame [OF a] by (simp_all add: calm_def)
    ultimately show ?thesis using step by blast
  next
    case (CallRemove h k)
    from Remove_total [of h s] obtain s' where r: "Remove h s = Inr s'" by blast
    let ?t = "s'\<lparr>history := history s' @ [Removed h]\<rparr>"
    from r Suc.prems CallRemove have "exec n k ?t = Some out"
      by (simp add: exec_Suc)
    moreover have "calm s ?t" "lock ?t"
      using lk Remove_frame [OF r] by (simp_all add: calm_def)
    ultimately show ?thesis using step by blast
  next
    case (CallEquals h1 h2 k)
    with Suc.prems have "exec n (k (Equals (cells s h1) (cells s h2))) s = Some out"
      by (simp add: exec_Suc)
    with calm_refl lk show ?thesis by (rule step)
  next
    case (CopyListener h k)
    define s1 where "s1 = s\<lparr>cells := (cells s)(next_cell s := cells s h), next_cell := Suc (next_cell s)\<rparr>"
    from Suc.prems CopyListener have "exec n (k (next_cell s)) s1 = Some out"
      by (simp add: exec_Suc new_cell_def s1_def)
    moreover have "calm s s1" "lock s1" using lk by (simp_all add: calm_def undisturbed_def s1_def)
    ultimately show ?thesis using step by blast
  next
    case (Recover p' k)
    with Suc.prems obtain r where r: "exec n p' s = Some r"
      and k: "exec n (k (case r of Normal _ \<Rightarrow> False | Panicked _ \<Rightarrow> True)) (state_of r) = Some out"
      by (auto simp: exec_Suc split: option.splits outcome.splits)
    from Suc.IH [OF lk r] have "calm s (state_of r)" .
    moreover from exec_locked [OF lk r] have "lock (state_of r)" by (simp add: held_def)
    ultimately show ?thesis using k by (rule step)
  qed
qed

lemma range_loop_calm:
  assumes "lock s" and "range_loop n ev l i v s = Some (Normal s')"
  shows "registry_calls (history s) \<le> registry_calls (history s')
       \<and> (registry_calls (history s') = registry_calls (history s) \<longrightarrow>
            listeners s' = listeners s \<and> arrays s' = arrays s \<and> listenerID s' = listenerID s
            \<and> visits (history s') = visits (history s) @ map ((!) (arrays s (ptr l))) [i..<len l])"
  using assms
proof (induction n arbitrary: i s)
  case 0
  then show ?case by simp
next
  case (Suc n)
  show ?case
  proof (cases "i < len l")
    case False
    with Suc.prems show ?thesis by (auto simp: range_loop_Suc)
  next
    case True
    define x where "x = arrays s (ptr l) ! i"
    define s0 where "s0 = s\<lparr>history := history s @ [Visited ev x]\<rparr>"
    from Suc.prems(2) True obtain s1 where
      ex: "exec n (v (callback x)) s0 = Some (Normal s1)"
      and rest: "range_loop n ev l (Suc i) v s1 = Some (Normal s')"
      by (auto simp: range_loop_Suc Let_def x_def s0_def split: option.splits outcome.splits)
    have l0: "lock s0" using Suc.prems(1) by (simp add: s0_def)
    from exec_calm [OF l0 ex] have c01: "calm s0 s1" by simp
    from exec_locked [OF l0 ex] have l1: "lock s1" by (simp add: held_def)
    note ih = Suc.IH [OF l1 rest]
    have c0: "registry_calls (history s0) = registry_calls (history s)" by (simp add: s0_def)
    from c01 ih c0 have le: "registry_calls (history s) \<le> registry_calls (history s')"
      by (simp add: calm_def)
    moreover have "listeners s' = listeners s \<and> arrays s' = arrays s \<and> listenerID s' = listenerID s
            \<and> visits (history s') = visits (history s) @ map ((!) (arrays s (ptr l))) [i..<len l]"
      if eq: "registry_calls (history s') = registry_calls (history s)"
    proof -
      from c01 ih c0 eq have e1: "registry_calls (history s1) = registry_calls (history s0)"
        and e2: "registry_calls (history s') = registry_calls (history s1)"
        by (simp_all add: calm_def)
      from c01 e1 have u: "undisturbed s0 s1" by (simp add: calm_def)
      then have a1: "arrays s1 = arrays s" and ls1: "listeners s1 = listeners s"
        and id1: "listenerID s1 = listenerID s"
        and v1: "visits (history s1) = visits (history s) @ [x]"
        by (simp_all add: undisturbed_def s0_def)
      from ih e2 a1 ls1 id1 v1 True show ?thesis
        by (simp add: x_def upt_conv_Cons)
    qed
    ultimately show ?thesis by blast
  qed
qed

lemma take_as_map_nth: "n \<le> length xs \<Longrightarrow> map ((!) xs) [0..<n] = take n xs"
  by (simp add: list_eq_iff_nth_eq)

lemma runListeners_calls:
  assumes "lock s" and "runListeners n key v s = Some (Normal s')"
  shows "registry_calls (history s) \<le> registry_calls (history s')"
proof (cases n)
  case 0
  with assms show ?thesis by simp
next
  case (Suc m)
  show ?thesis
  proof (cases "listeners s key")
    case None
    with assms Suc show ?thesis by (simp add: runListeners_Suc)
  next
    case (Some l)
    with assms Suc have "range_loop m key l 0 v s = Some (Normal s')"
      by (simp add: runListeners_Suc)
    from range_loop_calm [OF assms(1) this] show ?thesis by simp
  qed
qed

lemma runListeners_calm:
  assumes lk: "lock s"
    and b: "\<forall>l. listeners s key = Some l \<longrightarrow> len l \<le> length (arrays s (ptr l))"
    and run: "runListeners n key v s = Some (Normal s')"
  shows "lock s' \<and> registry_calls (history s) \<le> registry_calls (history s')
       \<and> (registry_calls (history s') = registry_calls (history s) \<longrightarrow>
            listeners s' = listeners s \<and> arrays s' = arrays s \<and> listenerID s' = listenerID s
            \<and> visits (history s') = visits (history s) @ registered s key)"
proof (cases n)
  case 0
  with run show ?thesis by simp
next
  case (Suc m)
  from runListeners_locked [OF lk run] have l': "lock s'" by (simp add: held_def)
  show ?thesis
  proof (cases "listeners s key")
    case None
    with run Suc lk show ?thesis by (auto simp: runListeners_Suc registered_def)
  next
    case (Some l)
    with b have le: "len l \<le> length (arrays s (ptr l))" by simp
    from Some have r: "registered s key = take (len l) (arrays s (ptr l))"
      by (simp add: registered_def elems_def)
    from run Suc Some have "range_loop m key l 0 v s = Some (Normal s')"
      by (simp add: runListeners_Suc)
    from range_loop_calm [OF lk this] l' r take_as_map_nth [OF le] show ?thesis by simp
  qed
qed

lemma deliver_calm:
  assumes lk: "lock s"
    and b: "bounds_ok s"
    and run: "deliver n item s = Some (Normal s')"
    and eq: "registry_calls (history s') = registry_calls (history s)"
  shows "listeners s' = listeners s \<and> arrays s' = arrays s \<and> listenerID s' = listenerID s
       \<and> visits (history s') = visits (history s) @ registered s (triggerQueueItem.event item) @
            (case channel item of None \<Rightarrow> []
             | Some c \<Rightarrow> registered s (triggerQueueItem.event item @ ''#'' @ Name c))"
proof (cases n)
  case 0
  with run show ?thesis by simp
next
  case (Suc m)
  have bk: "\<forall>l. listeners t key = Some l \<longrightarrow> len l \<le> length (arrays t (ptr l))"
    if "listeners t = listeners s" "arrays t = arrays s" for t :: "('a, 'b) state" and key
    using b that by (simp add: bounds_ok_def)
  from run Suc obtain s1 where
    r1: "runListeners m (triggerQueueItem.event item) (visitor item) s = Some (Normal s1)"
    by (auto simp: deliver_Suc split: option.splits outcome.splits)
  have bs: "\<forall>l. listeners s (triggerQueueItem.event item) = Some l \<longrightarrow> len l \<le> length (arrays s (ptr l))"
    using b by (simp add: bounds_ok_def)
  note e1 = runListeners_calm [OF lk bs r1]
  show ?thesis
  proof (cases "channel item")
    case None
    with run Suc r1 have "s' = s1" by (simp add: deliver_Suc)
    with e1 eq None show ?thesis by simp
  next
    case (Some c)
    let ?key = "triggerQueueItem.event item @ ''#'' @ Name c"
    from run Suc r1 Some have r2: "runListeners m ?key (visitor item) s1 = Some (Normal s')"
      by (simp add: deliver_Suc)
    from e1 have l1: "lock s1" by simp
    from runListeners_calls [OF l1 r2]
    have le2: "registry_calls (history s1) \<le> registry_calls (history s')" .
    with e1 eq have eq1: "registry_calls (history s1) = registry_calls (history s)"
      and eq2: "registry_calls (history s') = registry_calls (history s1)"
      by simp_all
    from e1 eq1 have same: "listeners s1 = listeners s" "arrays s1 = arrays s"
      and id1: "listenerID s1 = listenerID s"
      and v1: "visits (history s1) = visits (history s) @ registered s (triggerQueueItem.event item)"
      by simp_all
    have reg: "registered s1 k = registered s k" for k
      using same by (simp add: registered_def elems_def split: option.splits)
    note e2 = runListeners_calm [OF l1 bk [OF same] r2]
    with eq2 same id1 v1 Some show ?thesis by (simp add: reg)
  qed
qed

subsection \<open>Every delivery ends\<close>

lemma exec_returns: "lock s \<Longrightarrow> \<exists>n out. exec n p s = Some out"
proof (induction p arbitrary: s)
  case Return
  have "exec (Suc 0) Return s = Some (Normal s)" by (simp add: exec_Suc)
  then show ?case by blast
next
  case Panic
  have "exec (Suc 0) Panic s = Some (Panicked s)" by (simp add: exec_Suc)
  then show ?case by blast
next
  case (Get k)
  have "\<exists>n out. exec n (k (world s)) s = Some out"
    by (rule Get.IH [OF rangeI Get.prems])
  then obtain n out where "exec n (k (world s)) s = Some out" by blast
  then have "exec (Suc n) (Get k) s = Some out" by (simp add: exec_Suc)
  then show ?case by blast
next
  case (Put w k)
  from Put.prems have "lock (s\<lparr>world := w\<rparr>)" by simp
  from Put.IH [OF this] obtain n out where "exec n k (s\<lparr>world := w\<rparr>) = Some out" by auto
  then have "exec (Suc n) (Put w k) s = Some out" by (simp add: exec_Suc)
  then show ?case by blast
next
  case (CallTriggerEvent ev c v k)
  define s1 where "s1 = s\<lparr>triggerQueue := triggerQueue s @ [\<lparr>triggerQueueItem.event = ev, channel = c, visitor = v\<rparr>],
                     history := history s @ [Raised \<lparr>triggerQueueItem.event = ev, channel = c, visitor = v\<rparr>]\<rparr>"
  from CallTriggerEvent.prems have "lock s1" by (simp add: s1_def)
  from CallTriggerEvent.IH(2) [OF this] obtain n out where e: "exec n k s1 = Some out" by auto
  from exec_more_fuel [OF e, of "Suc n"] have e': "exec (Suc n) k s1 = Some out" by simp
  have "TriggerEvent (Suc n) ev c v s = Some (Normal s1)"
    using CallTriggerEvent.prems by (simp add: TriggerEvent_locked s1_def)
  with e' have "exec (Suc (Suc n)) (CallTriggerEvent ev c v k) s = Some out"
    by (simp add: exec_Suc [of "Suc n"])
  then show ?case by blast
next
  case (CallAddListener ev c f k)
  obtain h s' where a: "AddListener ev c f s = (h, s')" by (cases "AddListener ev c f s")
  let ?t = "s'\<lparr>history := history s' @ [Issued (id' (cells s' h))]\<rparr>"
  have "lock ?t" using CallAddListener.prems AddListener_frame [OF a] by simp
  have "\<exists>n out. exec n (k h) ?t = Some out"
    by (rule CallAddListener.IH [OF rangeI \<open>lock ?t\<close>])
  then obtain n out where "exec n (k h) ?t = Some out" by blast
  with a have "exec (Suc n) (CallAddListener ev c f k) s = Some out" by (simp add: exec_Suc)
  then show ?case by blast
next
  case (CallRemove h k)
  from Remove_total [of h s] obtain s' where r: "Remove h s = Inr s'" by blast
  let ?t = "s'\<lparr>history := history s' @ [Removed h]\<rparr>"
  have "lock ?t" using CallRemove.prems Remove_frame [OF r] by simp
  from CallRemove.IH [OF this] obtain n out where "exec n k ?t = Some out" by auto
  with r have "exec (Suc n) (CallRemove h k) s = Some out" by (simp add: exec_Suc)
  then show ?case by blast
next
  case (CallEquals h1 h2 k)
  let ?b = "Equals (cells s h1) (cells s h2)"
  have "\<exists>n out. exec n (k ?b) s = Some out"
    by (rule CallEquals.IH [OF rangeI CallEquals.prems])
  then obtain n out where "exec n (k ?b) s = Some out" by blast
  then have "exec (Suc n) (CallEquals h1 h2 k) s = Some out" by (simp add: exec_Suc)
  then show ?case by blast
next
  case (CopyListener h k)
  define s1 where "s1 = s\<lparr>cells := (cells s)(next_cell s := cells s h), next_cell := Suc (next_cell s)\<rparr>"
  from CopyListener.prems have "lock s1" by (simp add: s1_def)
  have "\<exists>n out. exec n (k (next_cell s)) s1 = Some out"
    by (rule CopyListener.IH [OF rangeI \<open>lock s1\<close>])
  then obtain n out where "exec n (k (next_cell s)) s1 = Some out" by blast
  then have "exec (Suc n) (CopyListener h k) s = Some out"
    by (simp add: exec_Suc new_cell_def s1_def)
  then show ?case by blast
next
  case (Recover p k)
  from Recover.IH(1) [OF Recover.prems] obtain n1 r where e1: "exec n1 p s = Some r" by auto
  let ?b = "case r of Normal _ \<Rightarrow> False | Panicked _ \<Rightarrow> True"
  from exec_locked [OF Recover.prems e1] have l1: "lock (state_of r)" by (simp add: held_def)
  have "\<exists>n out. exec n (k ?b) (state_of r) = Some out"
    by (rule Recover.IH(2) [OF rangeI l1])
  then obtain n2 out where e2: "exec n2 (k ?b) (state_of r) = Some out" by blast
  from exec_more_fuel [OF e1, of "max n1 n2"] exec_more_fuel [OF e2, of "max n1 n2"]
  have "exec (Suc (max n1 n2)) (Recover p k) s = Some out"
    by (cases r) (simp_all add: exec_Suc)
  then show ?case by blast
qed

lemma range_loop_returns:
  assumes "lock s"
  shows "\<exists>n out. range_loop n ev l i v s = Some out"
  using assms
proof (induction "len l - i" arbitrary: i s)
  case 0
  then have "range_loop (Suc 0) ev l i v s = Some (Normal s)" by (simp add: range_loop_Suc)
  then show ?case by blast
next
  case (Suc d)
  then have lt: "i < len l" by simp
  define x where "x = arrays s (ptr l) ! i"
  define s0 where "s0 = s\<lparr>history := history s @ [Visited ev x]\<rparr>"
  have l0: "lock s0" using Suc.prems by (simp add: s0_def)
  from exec_returns [OF l0] obtain n1 r where e1: "exec n1 (v (callback x)) s0 = Some r"
    by blast
  show ?case
  proof (cases r)
    case (Panicked t)
    with e1 lt have "range_loop (Suc n1) ev l i v s = Some (Panicked t)"
      by (simp add: range_loop_Suc Let_def x_def s0_def)
    then show ?thesis by blast
  next
    case (Normal s1)
    from exec_locked [OF l0 e1] Normal have l1: "lock s1" by (simp add: held_def)
    have d: "d = len l - Suc i" using Suc.hyps(2) by simp
    from Suc.hyps(1) [OF d l1] obtain n2 out where
      e2: "range_loop n2 ev l (Suc i) v s1 = Some out" by blast
    from exec_more_fuel [OF e1, of "max n1 n2"] range_loop_more_fuel [OF e2, of "max n1 n2"] Normal lt
    have "range_loop (Suc (max n1 n2)) ev l i v s = Some out"
      by (simp add: range_loop_Suc Let_def x_def s0_def)
    then show ?thesis by blast
  qed
qed

lemma runListeners_returns:
  assumes "lock s"
  shows "\<exists>n out. runListeners n key v s = Some out"
proof (cases "listeners s key")
  case None
  then have "runListeners (Suc 0) key v s = Some (Normal s)" by (simp add: runListeners_Suc)
  then show ?thesis by blast
next
  case (Some l)
  from range_loop_returns [OF assms] obtain n out where "range_loop n key l 0 v s = Some out"
    by blast
  with Some have "runListeners (Suc n) key v s = Some out" by (simp add: runListeners_Suc)
  then show ?thesis by blast
qed

lemma deliver_returns:
  assumes lk: "lock s"
  shows "\<exists>n out. deliver n item s = Some out"
proof -
  let ?N = "triggerQueueItem.event item"
  from runListeners_returns [OF lk] obtain n1 r where
    e1: "runListeners n1 ?N (visitor item) s = Some r" by blast
  show ?thesis
  proof (cases r)
    case (Panicked t)
    with e1 have "deliver (Suc n1) item s = Some (Panicked t)" by (simp add: deliver_Suc)
    then show ?thesis by blast
  next
    case (Normal s1)
    show ?thesis
    proof (cases "channel item")
      case None
      with e1 Normal have "deliver (Suc n1) item s = Some (Normal s1)" by (simp add: deliver_Suc)
      then show ?thesis by blast
    next
      case (Some c)
      let ?key = "?N @ ''#'' @ Name c"
      from runListeners_locked [OF lk e1] Normal have l1: "lock s1" by (simp add: held_def)
      from runListeners_returns [OF l1] obtain n2 out where
        e2: "runListeners n2 ?key (visitor item) s1 = Some out" by blast
      from runListeners_more_fuel [OF e1, of "max n1 n2"] runListeners_more_fuel [OF e2, of "max n1 n2"]
        Normal Some
      have "deliver (Suc (max n1 n2)) item s = Some out" by (simp add: deliver_Suc)
      then show ?thesis by blast
    qed
  qed
qed

lemma keyed_event: "keyed s \<Longrightarrow> x \<in> set (registered s k) \<Longrightarrow> Listener.event x = k"
  by (simp add: keyed_def)

lemma deliver_more_fuel: "deliver n item s = Some r \<Longrightarrow> n \<le> m \<Longrightarrow> deliver m item s = Some r"
proof (induction m)
  case 0
  then show ?case by simp
next
  case (Suc m)
  show ?case
  proof (cases "n = Suc m")
    case True
    with Suc.prems show ?thesis by simp
  next
    case False
    with Suc have "deliver m item s = Some r" by simp
    moreover have "more_fuel m TYPE(('a, 'b) state)" by (rule more_fuel_all)
    ultimately show ?thesis by (simp add: more_fuel_def)
  qed
qed

subsection \<open>Facts about the example states\<close>

lemma setup2_returns: "exec 10 setup2 (NewDispatcher doubling ()) = Some (Normal two_events)"
proof -
  have "case exec 10 setup2 (NewDispatcher doubling ()) of
          Some (Normal s) \<Rightarrow> True | _ \<Rightarrow> False"
    by code_simp
  then show ?thesis
    by (auto simp: two_events_def split: option.splits outcome.splits)
qed

lemma two_events_unlocked: "\<not> lock two_events"
  unfolding two_events_def by code_simp

lemma nested_run_returns:
  "exec 20 nested_run (NewDispatcher doubling ()) = Some (Normal nested_result)"
proof -
  have "case exec 20 nested_run (NewDispatcher doubling ()) of
          Some (Normal s) \<Rightarrow> True | _ \<Rightarrow> False"
    by code_simp
  then show ?thesis
    by (auto simp: nested_result_def split: option.splits outcome.splits)
qed

lemma nested_result_order:
  "map triggerQueueItem.event (served (history nested_result)) = [''A'', ''B'', ''C'', ''D'']"
  unfolding nested_result_def by code_simp

lemma trigger_result_returns:
  "TriggerEvent 12 ''A'' None top_walker two_events = Some (Normal trigger_result)"
proof -
  have "case TriggerEvent 12 ''A'' None top_walker two_events of
          Some (Normal s) \<Rightarrow> True | _ \<Rightarrow> False"
    unfolding two_events_def by code_simp
  then show ?thesis
    by (auto simp: trigger_result_def split: option.splits outcome.splits)
qed

lemma churn_run_returns:
  "exec 20 churn_run (NewDispatcher doubling ()) = Some (Normal churn_result)"
proof -
  have "case exec 20 churn_run (NewDispatcher doubling ()) of
          Some (Normal s) \<Rightarrow> True | _ \<Rightarrow> False"
    by code_simp
  then show ?thesis
    by (auto simp: churn_result_def split: option.splits outcome.splits)
qed

lemma panic_run_ends:
  "exec 20 panic_run (NewDispatcher doubling ()) = Some (Panicked mid_drain)"
proof -
  have "case exec 20 panic_run (NewDispatcher doubling ()) of
          Some (Panicked s) \<Rightarrow> True | _ \<Rightarrow> False"
    by code_simp
  then show ?thesis
    by (auto simp: mid_drain_def split: option.splits outcome.splits)
qed

lemma deliver_join_foo_returns: "deliver 6 join_foo mid_drain = Some (Normal mid_result)"
proof -
  have "case deliver 6 join_foo mid_drain of Some (Normal s) \<Rightarrow> True | _ \<Rightarrow> False"
    unfolding mid_drain_def by code_simp
  then show ?thesis
    by (auto simp: mid_result_def split: option.splits outcome.splits)
qed

lemma abort_run_ends:
  "exec 20 abort_run (NewDispatcher doubling ()) = Some (Panicked abort_result)"
proof -
  have "case exec 20 abort_run (NewDispatcher doubling ()) of
          Some (Panicked s) \<Rightarrow> True | _ \<Rightarrow> False"
    by code_simp
  then show ?thesis
    by (auto simp: abort_result_def split: option.splits outcome.splits)
qed

lemma stuck_run_returns:
  "exec 20 stuck_run (NewDispatcher doubling ()) = Some (Normal stuck_result)"
proof -
  have "case exec 20 stuck_run (NewDispatcher doubling ()) of
          Some (Normal s) \<Rightarrow> True | _ \<Rightarrow> False"
    by code_simp
  then show ?thesis
    by (auto simp: stuck_result_def split: option.splits outcome.splits)
qed

text \<open>
  A join without channel visits the global listener only, a join in foo the global
  listener and then the listener of foo, a join in bar the global listener only.
\<close>

lemma scoping_scenario:
  "(case HandleJoin 8 None leaf_walker global_and_scoped of
      Some (Normal s) \<Rightarrow> map id' (visits (history s)) = [0] | _ \<Rightarrow> False)
   \<and> (case HandleJoin 8 (Some (Channel ''foo'')) leaf_walker global_and_scoped of
      Some (Normal s) \<Rightarrow> map id' (visits (history s)) = [0, 1] | _ \<Rightarrow> False)
   \<and> (case HandleJoin 8 (Some (Channel ''bar'')) leaf_walker global_and_scoped of
      Some (Normal s) \<Rightarrow> map id' (visits (history s)) = [0] | _ \<Rightarrow> False)"
  by code_simp

subsection \<open>Registering until the counter wraps around\<close>

lemma exec_register_many:
  "exec (Suc n) (register_many n) s = Some (Normal ((registered_once ^^ n) s))"
proof (induction n arbitrary: s)
  case 0
  show ?case by (simp add: exec_Suc)
next
  case (Suc n)
  have "exec (Suc (Suc n)) (register_many (Suc n)) s = exec (Suc n) (register_many n) (registered_once s)"
    by (simp add: exec_Suc [of "Suc n"] registered_once_def split: prod.splits)
  with Suc.IH [of "registered_once s"] show ?case by (simp add: funpow_swap1)
qed

lemma registered_once_issued:
  "length (issued (history (registered_once s))) = Suc (length (issued (history s)))"
proof -
  obtain h s' where a: "AddListener ''E'' None None s = (h, s')"
    by (cases "AddListener ''E'' None None s")
  with AddListener_frame [OF a] show ?thesis by (simp add: registered_once_def)
qed

lemma register_many_issued:
  "length (issued (history ((registered_once ^^ n) s))) = length (issued (history s)) + n"
  by (induction n) (simp_all add: registered_once_issued)

lemma register_many_sound: "sound ((registered_once ^^ n) (NewDispatcher doubling ()))"
  using reachable_sound [OF exec_register_many, of n doubling "()"] by simp

lemma registered_once_keeps:
  assumes "sound s"
  shows "set (registered s k) \<subseteq> set (registered (registered_once s) k)"
proof -
  obtain h s' where a: "AddListener ''E'' None None s = (h, s')"
    by (cases "AddListener ''E'' None None s")
  have "registered (s'\<lparr>history := history s' @ [Issued (id' (cells s' h))]\<rparr>) k = registered s' k"
    by (rule registered_cong) simp_all
  with AddListener_sound(2) [OF assms a, of k] a show ?thesis
    by (simp add: registered_once_def)
qed

lemma first_listener_stays:
  "\<lparr>dispatcher = True, callback = None, Listener.event = ''E'', id' = 0\<rparr>
     \<in> set (registered ((registered_once ^^ Suc n) (NewDispatcher doubling ())) ''E'')"
proof (induction n)
  case 0
  let ?s = "NewDispatcher doubling () :: (nat, unit) state"
  obtain h s' where a: "AddListener ''E'' None None ?s = (h, s')"
    by (cases "AddListener ''E'' None None ?s")
  have "sound ?s" by (rule NewDispatcher_sound)
  then have b: "bounds_ok ?s" and sp: "separate ?s" by (simp_all add: sound_def)
  have fresh: "\<forall>y\<in>set (registered ?s (fullEventName ''E'' None)). id' y \<noteq> listenerID ?s"
    by (simp add: registered_def NewDispatcher_def)
  from AddListener_effect(5) [OF b sp fresh a]
  have "registered s' ''E'' = [\<lparr>dispatcher = True, callback = None, Listener.event = ''E'', id' = 0\<rparr>]"
    by (simp add: fullEventName_def registered_def NewDispatcher_def)
  moreover have "registered (s'\<lparr>history := history s' @ [Issued (id' (cells s' h))]\<rparr>) ''E'' = registered s' ''E''"
    by (rule registered_cong) simp_all
  ultimately show ?case using a by (simp add: registered_once_def)
next
  case (Suc n)
  from registered_once_keeps [OF register_many_sound [of "Suc n"], of "''E''"] Suc.IH
  show ?case by auto
qed

lemma wrapped_reached:
  "exec (Suc (2 ^ 64)) (register_many (2 ^ 64)) (NewDispatcher doubling ()) = Some (Normal wrapped)"
  unfolding wrapped_def by (rule exec_register_many)

lemma wrapped_issued: "length (issued (history wrapped)) = 2 ^ 64"
  unfolding wrapped_def by (simp add: register_many_issued NewDispatcher_def)

lemma wrapped_counter: "listenerID wrapped = 0"
proof -
  have "numbered (state_of (Normal wrapped))"
    by (rule reachable_numbered [OF wrapped_reached]) (simp add: wrapped_issued)
  then have "listenerID wrapped = of_nat (2 ^ 64)"
    by (simp add: numbered_def wrapped_issued)
  then show ?thesis by simp
qed

lemma wrapped_first:
  "\<lparr>dispatcher = True, callback = None, Listener.event = ''E'', id' = 0\<rparr>
     \<in> set (registered wrapped ''E'')"
proof -
  have "(2::nat) ^ 64 = Suc (2 ^ 64 - 1)" by simp
  with first_listener_stays [of "2 ^ 64 - 1"] show ?thesis
    unfolding wrapped_def by simp
qed

lemma wrapped_AddListener:
  obtains i where "i \<in> set (registered wrapped ''E'')" and "id' i = 0"
    and "AddListener ''E'' None f wrapped = new_cell i wrapped"
proof -
  have "\<exists>y\<in>set (registered wrapped (fullEventName ''E'' None)). id' y = listenerID wrapped"
    using wrapped_first by (auto simp: fullEventName_def wrapped_counter intro!: bexI)
  from AddListener_duplicate [OF this, of f] that show ?thesis
    by (auto simp: fullEventName_def wrapped_counter)
qed

lemma past_max_reached:
  "exec (Suc (2 ^ 63 + 1)) (register_many (2 ^ 63 + 1)) (NewDispatcher doubling ())
     = Some (Normal past_max)"
  unfolding past_max_def by (rule exec_register_many)

lemma past_max_issued: "issued (history past_max) = map of_nat [0..<2 ^ 63 + 1]"
proof -
  have len: "length (issued (history past_max)) = 2 ^ 63 + 1"
    unfolding past_max_def by (simp add: register_many_issued NewDispatcher_def)
  have "numbered (state_of (Normal past_max))"
    by (rule reachable_numbered [OF past_max_reached]) (simp add: len)
  then show ?thesis by (simp add: numbered_def len)
qed

section \<open>The claims\<close>

subsection \<open>C1: nested triggers are queued and served breadth first\<close>




subsection \<open>C2: the order of delivery within one trigger\<close>




subsection \<open>C3: the duplicate check of AddListener\<close>




subsection \<open>C4: listener ids are unique and strictly increasing\<close>




subsection \<open>C5: Remove is idempotent\<close>



subsection \<open>C6: the first Remove deletes the listener and keeps the order\<close>

text \<open>
  C6. When the cell still has its owner and the list under its event key contains a
  listener with the cell's id, \<^verbatim>\<open>Remove\<close> returns, the list afterwards is the list
  before without the first listener that has this id (everything before and after it
  stays, in order), and the cell's owner is cleared.
\<close>

theorem Remove_deletes_first_match:
  assumes att: "dispatcher (cells s h)"
    and key: "listeners s (Listener.event (cells s h)) = Some l"
    and ex: "\<exists>x\<in>set (elems l s). id' x = id' (cells s h)"
  shows "\<exists>pre x post s'.
           elems l s = pre @ x # post \<and> id' x = id' (cells s h)
           \<and> (\<forall>y\<in>set pre. id' y \<noteq> id' (cells s h))
           \<and> Remove h s = Inr s'
           \<and> registered s' (Listener.event (cells s h)) = pre @ post
           \<and> \<not> dispatcher (cells s' h)"
proof -
  let ?P = "\<lambda>listener. Equals (cells s h) listener"
  from ex have "\<exists>x\<in>set (elems l s). ?P x" by (metis Equals_def)
  from position_first [OF this] obtain pre x post where
    sp: "elems l s = pre @ x # post" and px: "?P x" and npre: "\<forall>y\<in>set pre. \<not> ?P y"
    and pos: "position ?P (elems l s) = Some (length pre)"
    by blast
  define s' where "s' = s\<lparr>listeners := (listeners s)(Listener.event (cells s h) \<mapsto>
                     l\<lparr>len := length (elems l s) - 1\<rparr>),
                  arrays := (arrays s)(ptr l :=
                     take (length pre) (arrays s (ptr l)) @ drop (Suc (length pre)) (elems l s) @
                     drop (length (elems l s) - 1) (arrays s (ptr l))),
                  cells := (cells s)(h := (cells s h)\<lparr>dispatcher := False\<rparr>)\<rparr>"
  have rm: "Remove h s = Inr s'"
    unfolding s'_def by (rule Remove_found [OF att key pos])
  have tk: "take (length pre) (arrays s (ptr l)) = pre"
  proof -
    have "take (length pre) (elems l s) = pre" by (simp add: sp)
    moreover have "length pre \<le> len l" using sp
      by (metis elems_def length_take le_add1 length_append min.cobounded2 order_trans)
    ultimately show ?thesis by (simp add: elems_def min_def)
  qed
  have arr: "arrays s' (ptr l) = pre @ post @ drop (length pre + length post) (arrays s (ptr l))"
    by (simp add: s'_def tk sp)
  have "registered s' (Listener.event (cells s h)) = elems (l\<lparr>len := length pre + length post\<rparr>) s'"
    by (simp add: registered_def s'_def sp)
  also have "\<dots> = take (length pre + length post) (arrays s' (ptr l))"
    by (simp add: elems_def)
  also have "\<dots> = pre @ post"
    by (simp add: arr)
  finally have "registered s' (Listener.event (cells s h)) = pre @ post" .
  moreover have "\<not> dispatcher (cells s' h)" by (simp add: s'_def)
  ultimately have "elems l s = pre @ x # post \<and> id' x = id' (cells s h)
           \<and> (\<forall>y\<in>set pre. id' y \<noteq> id' (cells s h))
           \<and> Remove h s = Inr s'
           \<and> registered s' (Listener.event (cells s h)) = pre @ post
           \<and> \<not> dispatcher (cells s' h)"
    using sp px npre rm by (auto simp: Equals_def)
  then show ?thesis by blast
qed

theorem Remove_deletes_first_match_witness:
  "\<exists>s'. Remove 0 join_twice = Inr s' \<and> map id' (registered s' ''JOIN'') = [1]
        \<and> \<not> dispatcher (cells s' 0)"
proof -
  let ?l = "\<lparr>ptr = 2, len = 2\<rparr>"
  have att: "dispatcher (cells join_twice 0)" by code_simp
  have key: "listeners join_twice (Listener.event (cells join_twice 0)) = Some ?l" by code_simp
  have ex: "\<exists>x\<in>set (elems ?l join_twice). id' x = id' (cells join_twice 0)" by code_simp
  have ids: "map id' (elems ?l join_twice) = [0, 1]" by code_simp
  have me: "id' (cells join_twice 0) = 0" "Listener.event (cells join_twice 0) = ''JOIN''"
    by code_simp+
  from Remove_deletes_first_match [OF att key ex] obtain pre x post s' where
    sp: "elems ?l join_twice = pre @ x # post"
    and first: "\<forall>y\<in>set pre. id' y \<noteq> id' (cells join_twice 0)"
    and rm: "Remove 0 join_twice = Inr s'"
    and reg: "registered s' (Listener.event (cells join_twice 0)) = pre @ post"
    and det: "\<not> dispatcher (cells s' 0)"
    by blast
  from ids sp have m: "map id' pre @ id' x # map id' post = [0, 1]" by simp
  have "pre = []"
  proof (cases pre)
    case Nil
    then show ?thesis .
  next
    case (Cons p ps)
    with m have "id' p = 0" by simp
    with first me(1) Cons show ?thesis by simp
  qed
  with m have "map id' (pre @ post) = [1]" by simp
  with rm reg det me(2) show ?thesis by auto
qed

subsection \<open>C7: a trigger without listeners\<close>

text \<open>
  C7. In every state that any program reaches from a new dispatcher and in which the lock
  is free, a call of \<^verbatim>\<open>TriggerEvent\<close> for an event whose plain key and whose
  channel key have no listeners returns normally (fuel 5 is enough), visits no listener,
  and leaves the registry, the listener cells and the id counter as they were; the queue
  is empty and the lock free afterwards.
\<close>

theorem trigger_without_listeners_is_a_no_op:
  assumes "exec m p (NewDispatcher g w0) = Some out"
    and "\<not> lock (state_of out)"
    and "no_listeners (state_of out) ev" "no_listeners (state_of out) (fullEventName ev c)"
    and "5 \<le> fuel"
  shows "\<exists>s'. TriggerEvent fuel ev c v (state_of out) = Some (Normal s')
            \<and> visits (history s') = visits (history (state_of out))
            \<and> listeners s' = listeners (state_of out) \<and> arrays s' = arrays (state_of out)
            \<and> cells s' = cells (state_of out)
            \<and> listenerID s' = listenerID (state_of out)
            \<and> triggerQueue s' = [] \<and> \<not> lock s'"
proof -
  let ?s = "state_of out"
  from reachable_idle [OF assms(1,2)] have q: "triggerQueue ?s = []" .
  from assms(5) have "fuel = Suc (Suc (Suc (Suc (Suc (fuel - 5)))))" by simp
  with TriggerEvent_no_listeners [OF assms(2) q assms(3,4), of "fuel - 5" v]
  obtain s' where "TriggerEvent fuel ev c v ?s = Some (Normal s')"
    and "history s' = history ?s @
                 [Raised \<lparr>triggerQueueItem.event = ev, channel = c, visitor = v\<rparr>, Locked,
                  Popped \<lparr>triggerQueueItem.event = ev, channel = c, visitor = v\<rparr>, Unlocked]"
    and "listeners s' = listeners ?s \<and> arrays s' = arrays ?s \<and> cells s' = cells ?s
            \<and> listenerID s' = listenerID ?s \<and> triggerQueue s' = [] \<and> \<not> lock s'"
    by auto
  then show ?thesis by auto
qed

theorem trigger_without_listeners_witness:
  "\<exists>s'. TriggerEvent 5 ''JOIN'' (Some (Channel ''bar'')) leaf_walker nested_result
           = Some (Normal s')
        \<and> visits (history s') = visits (history nested_result)
        \<and> listenerID s' = 2 \<and> triggerQueue s' = [] \<and> \<not> lock s'"
proof -
  have h: "\<not> lock (state_of (Normal nested_result))"
    "no_listeners (state_of (Normal nested_result)) ''JOIN''"
    "no_listeners (state_of (Normal nested_result)) (fullEventName ''JOIN'' (Some (Channel ''bar'')))"
    "(5::nat) \<le> 5"
    unfolding nested_result_def state_of_simps by code_simp+
  have id: "listenerID nested_result = 2" unfolding nested_result_def by code_simp
  from trigger_without_listeners_is_a_no_op [OF nested_run_returns h, of leaf_walker]
  obtain s' where
    "TriggerEvent 5 ''JOIN'' (Some (Channel ''bar'')) leaf_walker nested_result = Some (Normal s')"
    and "visits (history s') = visits (history nested_result)"
    and "listenerID s' = listenerID nested_result"
    and "triggerQueue s' = []" and "\<not> lock s'"
    by auto
  with id show ?thesis by auto
qed

subsection \<open>C8: the lock and the drain loop\<close>

text \<open>
  C8, as amended. When a call of \<^verbatim>\<open>TriggerEvent\<close> that found the lock free returns
  normally, the queue is empty and the lock is free again. In every state that a program
  reaches from a new dispatcher (a state between public calls), no drain loop is active
  and the history has kept the discipline of \<open>tracking\<close>: at every earlier moment at most
  one call was inside its drain loop, and the lock was set while one was. Between public
  calls the lock is set exactly when a panic has left a drain loop; as long as none has,
  the lock is free and the queue is empty, so the next call starts a drain of its own.
  Once the lock is set, every call only appends its request to the queue.
\<close>

theorem top_level_trigger_leaves_queue_empty_and_unlocked:
  "(\<not> lock s \<and> TriggerEvent n ev c v s = Some (Normal s') \<longrightarrow> triggerQueue s' = [] \<and> \<not> lock s')
   \<and> (exec m p (NewDispatcher g w0) = Some out \<longrightarrow>
        tracking (history (state_of out)) = Some (0, lock (state_of out))
        \<and> (\<forall>h1 h2. history (state_of out) = h1 @ h2 \<longrightarrow>
              (\<exists>d lk. tracking h1 = Some (d, lk) \<and> d \<le> 1 \<and> (d = 1 \<longrightarrow> lk)))
        \<and> lock (state_of out) = crashed (history (state_of out))
        \<and> (\<not> lock (state_of out) \<longrightarrow> triggerQueue (state_of out) = []))
   \<and> (lock t \<longrightarrow>
        TriggerEvent (Suc k) ev' c' v' t =
          Some (Normal (t\<lparr>triggerQueue := triggerQueue t @ [\<lparr>triggerQueueItem.event = ev', channel = c', visitor = v'\<rparr>],
                          history := history t @ [Raised \<lparr>triggerQueueItem.event = ev', channel = c', visitor = v'\<rparr>]\<rparr>)))"
proof -
  have p1: "\<not> lock s \<and> TriggerEvent n ev c v s = Some (Normal s') \<longrightarrow> triggerQueue s' = [] \<and> \<not> lock s'"
    using TriggerEvent_top_level [of s n ev c v s'] by simp
  have p2: "exec m p (NewDispatcher g w0) = Some out \<longrightarrow>
        tracking (history (state_of out)) = Some (0, lock (state_of out))
        \<and> (\<forall>h1 h2. history (state_of out) = h1 @ h2 \<longrightarrow>
              (\<exists>d lk. tracking h1 = Some (d, lk) \<and> d \<le> 1 \<and> (d = 1 \<longrightarrow> lk)))
        \<and> lock (state_of out) = crashed (history (state_of out))
        \<and> (\<not> lock (state_of out) \<longrightarrow> triggerQueue (state_of out) = [])"
  proof
    assume run: "exec m p (NewDispatcher g w0) = Some out"
    let ?s = "state_of out"
    from preserves_exec [OF tracked_preserved NewDispatcher_tracked run] reachable_frames [OF run]
    have tr: "tracking (history ?s) = Some (0, lock ?s)" and cr: "lock ?s = crashed (history ?s)"
      by (simp_all add: tracked_def)
    have pre: "\<forall>h1 h2. history ?s = h1 @ h2 \<longrightarrow>
              (\<exists>d lk. tracking h1 = Some (d, lk) \<and> d \<le> 1 \<and> (d = 1 \<longrightarrow> lk))"
    proof (intro allI impI)
      fix h1 h2 assume "history ?s = h1 @ h2"
      with tr tracking_prefix [of h1 h2] obtain d lk where t1: "tracking h1 = Some (d, lk)"
        by (cases "tracking h1") auto
      with tracking_bounds [OF t1]
      show "\<exists>d lk. tracking h1 = Some (d, lk) \<and> d \<le> 1 \<and> (d = 1 \<longrightarrow> lk)" by blast
    qed
    from reachable_idle [OF run] have "\<not> lock ?s \<longrightarrow> triggerQueue ?s = []" by blast
    with tr pre cr
    show "tracking (history ?s) = Some (0, lock ?s)
        \<and> (\<forall>h1 h2. history ?s = h1 @ h2 \<longrightarrow>
              (\<exists>d lk. tracking h1 = Some (d, lk) \<and> d \<le> 1 \<and> (d = 1 \<longrightarrow> lk)))
        \<and> lock ?s = crashed (history ?s)
        \<and> (\<not> lock ?s \<longrightarrow> triggerQueue ?s = [])"
      by (intro conjI) assumption+
  qed
  have p3: "lock t \<longrightarrow>
        TriggerEvent (Suc k) ev' c' v' t =
          Some (Normal (t\<lparr>triggerQueue := triggerQueue t @ [\<lparr>triggerQueueItem.event = ev', channel = c', visitor = v'\<rparr>],
                          history := history t @ [Raised \<lparr>triggerQueueItem.event = ev', channel = c', visitor = v'\<rparr>]\<rparr>))"
    by (simp add: TriggerEvent_locked)
  show ?thesis by (rule conjI [OF p1 conjI [OF p2 p3]])
qed

theorem top_level_trigger_witness:
  "triggerQueue trigger_result = [] \<and> \<not> lock trigger_result
   \<and> tracking (history nested_result) = Some (0, False)
   \<and> \<not> crashed (history nested_result)
   \<and> triggerQueue nested_result = []
   \<and> TriggerEvent (Suc 0) ''Y'' None leaf_walker stuck_result =
       Some (Normal (stuck_result\<lparr>triggerQueue := triggerQueue stuck_result @
                          [\<lparr>triggerQueueItem.event = ''Y'', channel = None, visitor = leaf_walker\<rparr>],
                        history := history stuck_result @
                          [Raised \<lparr>triggerQueueItem.event = ''Y'', channel = None, visitor = leaf_walker\<rparr>]\<rparr>))"
proof -
  have u: "\<not> lock nested_result" unfolding nested_result_def by code_simp
  have l: "lock stuck_result" unfolding stuck_result_def by code_simp
  from top_level_trigger_leaves_queue_empty_and_unlocked
    [where s = two_events and n = 12 and ev = "''A''" and c = None and v = top_walker
       and s' = trigger_result
       and m = 20 and p = nested_run and g = doubling and ?w0.0 = "()"
       and out = "Normal nested_result"
       and t = stuck_result and k = 0 and ev' = "''Y''" and c' = None and v' = leaf_walker]
    two_events_unlocked trigger_result_returns nested_run_returns u l
  show ?thesis by simp
qed

text \<open>
  C8 as stated fails after a panic: "a later top-level call always starts a fresh drain"
  does not hold once a panic has left a drain loop, because the lock is only released
  after the loop. The call of the listener on X panics, the caller recovers and triggers
  Y: the lock is still set, so the request for Y stays in the queue and the listener on Y
  is not called; the program ends with the lock set and no drain loop active.
\<close>

theorem lock_stays_set_after_panic_counterexample:
  "exec 20 stuck_run (NewDispatcher doubling ()) = Some (Normal stuck_result)
   \<and> lock stuck_result
   \<and> frames stuck_result = 0
   \<and> map triggerQueueItem.event (raised (history stuck_result)) = [''X'', ''Y'']
   \<and> map triggerQueueItem.event (served (history stuck_result)) = [''X'']
   \<and> map triggerQueueItem.event (triggerQueue stuck_result) = [''Y'']
   \<and> map id' (registered stuck_result ''Y'') = [1]
   \<and> map id' (visits (history stuck_result)) = [0]"
proof -
  have a: "lock stuck_result" unfolding stuck_result_def by code_simp
  have b: "frames stuck_result = 0" unfolding stuck_result_def by code_simp
  have c: "map triggerQueueItem.event (raised (history stuck_result)) = [''X'', ''Y'']"
    unfolding stuck_result_def by code_simp
  have d: "map triggerQueueItem.event (served (history stuck_result)) = [''X'']"
    unfolding stuck_result_def by code_simp
  have e: "map triggerQueueItem.event (triggerQueue stuck_result) = [''Y'']"
    unfolding stuck_result_def by code_simp
  have f: "map id' (registered stuck_result ''Y'') = [1]"
    unfolding stuck_result_def by code_simp
  have g: "map id' (visits (history stuck_result)) = [0]"
    unfolding stuck_result_def by code_simp
  show ?thesis using stuck_run_returns a b c d e f g by (intro conjI) assumption+
qed

subsection \<open>C9: AddListener changes the list of one key\<close>




subsection \<open>C10: when Remove clears the owner\<close>

text \<open>
  C10. For a cell that still has its owner: when its event key has an entry in the
  registry and no listener of that list has the cell's id, \<^verbatim>\<open>Remove\<close> changes nothing
  at all, so the owner is not cleared (and a later call scans the list again); when the
  key has no entry, \<^verbatim>\<open>Remove\<close> leaves the registry as it is and clears the owner.
\<close>

theorem Remove_clears_owner_only_on_removal_or_absent_key:
  assumes "dispatcher (cells s h)"
  shows "(\<forall>l. listeners s (Listener.event (cells s h)) = Some l
              \<and> (\<forall>y\<in>set (elems l s). id' y \<noteq> id' (cells s h))
           \<longrightarrow> Remove h s = Inr s \<and> dispatcher (cells s h))
       \<and> (listeners s (Listener.event (cells s h)) = None
           \<longrightarrow> (\<exists>s'. Remove h s = Inr s' \<and> listeners s' = listeners s \<and> arrays s' = arrays s
                    \<and> \<not> dispatcher (cells s' h)))"
  using assms by (auto simp: Remove_not_found Remove_absent)

theorem Remove_clears_owner_witness:
  "Remove 1 stale_copy = Inr stale_copy \<and> dispatcher (cells stale_copy 1)
   \<and> (\<exists>s'. Remove 0 orphan = Inr s' \<and> listeners s' = listeners orphan
          \<and> arrays s' = arrays orphan \<and> \<not> dispatcher (cells s' 0))"
proof -
  have att: "dispatcher (cells stale_copy 1)" by code_simp
  have key: "listeners stale_copy (Listener.event (cells stale_copy 1)) = Some \<lparr>ptr = 1, len = 0\<rparr>"
    by code_simp
  have none: "\<forall>y\<in>set (elems \<lparr>ptr = 1, len = 0\<rparr> stale_copy). id' y \<noteq> id' (cells stale_copy 1)"
    by (simp add: elems_def)
  have att': "dispatcher (cells orphan 0)" by (simp add: orphan_def)
  have key': "listeners orphan (Listener.event (cells orphan 0)) = None"
    by (simp add: orphan_def NewDispatcher_def)
  from Remove_clears_owner_only_on_removal_or_absent_key [OF att] key none
  have "Remove 1 stale_copy = Inr stale_copy" by blast
  moreover from Remove_clears_owner_only_on_removal_or_absent_key [OF att'] key'
  have "\<exists>s'. Remove 0 orphan = Inr s' \<and> listeners s' = listeners orphan
          \<and> arrays s' = arrays orphan \<and> \<not> dispatcher (cells s' 0)" by blast
  ultimately show ?thesis using att by blast
qed

end
